theory Spec2Isabelle
  imports Main "HOL-Library.Sublist"
begin

section \<open>JavaScript strings\<close>

text \<open>
  Strings are lists of characters with code points below 256. The string methods used by
  \<^verbatim>\<open>importParser.ts\<close> and \<^verbatim>\<open>pathResolver.ts\<close> are written out here with the
  behaviour JavaScript gives them on such strings.
\<close>

definition startsWith :: "string \<Rightarrow> string \<Rightarrow> bool" where
  "startsWith s p = (take (length p) s = p)"

definition endsWith :: "string \<Rightarrow> string \<Rightarrow> bool" where
  "endsWith s p = (length p \<le> length s \<and> drop (length s - length p) s = p)"

text \<open>\<^verbatim>\<open>s.includes(p)\<close>: \<open>p\<close> occurs in \<open>s\<close> as a contiguous substring.\<close>

fun includesStr :: "string \<Rightarrow> string \<Rightarrow> bool" where
  "includesStr [] p = (p = [])"
| "includesStr (c # cs) p = (startsWith (c # cs) p \<or> includesStr cs p)"

text \<open>
  \<^verbatim>\<open>s.split(c)\<close> for a one-character separator: the result is never empty, and
  \<^verbatim>\<open>''.split(c)\<close> is \<^verbatim>\<open>['']\<close>.
\<close>

fun split :: "char \<Rightarrow> string \<Rightarrow> string list" where
  "split sep [] = [[]]"
| "split sep (c # cs) =
     (if c = sep then [] # split sep cs
      else (case split sep cs of [] \<Rightarrow> [[c]] | x # xs \<Rightarrow> (c # x) # xs))"

text \<open>\<^verbatim>\<open>xs.pop()\<close> is \<^verbatim>\<open>undefined\<close> on an empty array.\<close>

definition pop :: "'a list \<Rightarrow> 'a option" where
  "pop xs = (if xs = [] then None else Some (last xs))"

definition toLowerChar :: "char \<Rightarrow> char" where
  "toLowerChar c =
     (let n = (of_char c :: nat)
      in if (65 \<le> n \<and> n \<le> 90) \<or> (192 \<le> n \<and> n \<le> 222 \<and> n \<noteq> 215)
         then char_of (n + 32) else c)"

definition toLowerCase :: "string \<Rightarrow> string" where
  "toLowerCase s = map toLowerChar s"

text \<open>The class \<^verbatim>\<open>\s\<close>: tab, line feed, vertical tab, form feed, carriage return, space,
  no-break space.\<close>

definition isSpace :: "char \<Rightarrow> bool" where
  "isSpace c = ((of_char c :: nat) \<in> {9, 10, 11, 12, 13, 32, 160})"

text \<open>The class \<^verbatim>\<open>\w\<close>: \<^verbatim>\<open>[A-Za-z0-9_]\<close>.\<close>

definition isWord :: "char \<Rightarrow> bool" where
  "isWord c =
     (let n = (of_char c :: nat)
      in (48 \<le> n \<and> n \<le> 57) \<or> (65 \<le> n \<and> n \<le> 90) \<or> n = 95 \<or> (97 \<le> n \<and> n \<le> 122))"

definition isQuote :: "char \<Rightarrow> bool" where
  "isQuote c = (c = CHR 0x27 \<or> c = CHR 0x22)"

text \<open>\<^verbatim>\<open>s.trim()\<close>\<close>

definition trim :: "string \<Rightarrow> string" where
  "trim s = rev (dropWhile isSpace (rev (dropWhile isSpace s)))"

section \<open>Regular expressions\<close>

text \<open>
  The regular expression literals of the source are written as syntax trees, and matched
  by a backtracking matcher that lists every way a pattern can match at the start of the
  input, in the order in which JavaScript's matcher tries them: alternatives left to
  right, quantifiers greedy. The first element of the list is the match JavaScript finds.
  A matcher state is the input that remains and the capture groups set so far.
\<close>

datatype regex =
    Cls "char \<Rightarrow> bool"
  | Lit string
  | Seq regex regex
  | Alt regex regex
  | Star regex
  | Opt regex
  | Grp nat regex
  | Eos

type_synonym mstate = "string \<times> (nat \<times> string) list"

text \<open>
  Greedy iteration. An iteration that consumes nothing is rejected, as in JavaScript, so
  the length of the remaining input bounds the number of iterations.
\<close>

primrec rstar :: "(mstate \<Rightarrow> mstate list) \<Rightarrow> nat \<Rightarrow> mstate \<Rightarrow> mstate list" where
  "rstar f 0 st = [st]"
| "rstar f (Suc n) st =
     concat (map (rstar f n) (filter (\<lambda>st'. length (fst st') < length (fst st)) (f st))) @ [st]"

primrec rmatch :: "regex \<Rightarrow> mstate \<Rightarrow> mstate list" where
  "rmatch (Cls P) st =
     (case fst st of [] \<Rightarrow> [] | c # cs \<Rightarrow> if P c then [(cs, snd st)] else [])"
| "rmatch (Lit w) st =
     (if startsWith (fst st) w then [(drop (length w) (fst st), snd st)] else [])"
| "rmatch (Seq a b) st = concat (map (rmatch b) (rmatch a st))"
| "rmatch (Alt a b) st = rmatch a st @ rmatch b st"
| "rmatch (Star a) st = rstar (rmatch a) (length (fst st)) st"
| "rmatch (Opt a) st = rmatch a st @ [st]"
| "rmatch (Grp n a) st =
     map (\<lambda>st'. (fst st', (n, take (length (fst st) - length (fst st')) (fst st)) # snd st'))
       (rmatch a st)"
| "rmatch Eos st = (if fst st = [] then [st] else [])"

definition Plus :: "regex \<Rightarrow> regex" where
  "Plus a = Seq a (Star a)"

primrec seqs :: "regex list \<Rightarrow> regex" where
  "seqs [] = Lit []"
| "seqs (r # rs) = Seq r (seqs rs)"

text \<open>
  One match: the index where it starts, the matched text (\<^verbatim>\<open>match[0]\<close>), the capture
  groups, and the input after the match.
\<close>

record rmatch_result =
  index :: nat
  text0 :: string
  groups :: "(nat \<times> string) list"
  rest :: string

text \<open>
  \<^verbatim>\<open>regex.exec(line)\<close> for a global regex whose \<^verbatim>\<open>lastIndex\<close> is \<open>i\<close>, on the part \<open>s\<close> of the
  line from \<open>i\<close> on: the leftmost position from which the pattern matches.
\<close>

fun exec :: "regex \<Rightarrow> nat \<Rightarrow> string \<Rightarrow> rmatch_result option" where
  "exec r i [] =
     (case rmatch r ([], []) of
        [] \<Rightarrow> None
      | st # _ \<Rightarrow> Some \<lparr>index = i, text0 = [], groups = snd st, rest = fst st\<rparr>)"
| "exec r i (c # cs) =
     (case rmatch r (c # cs, []) of
        [] \<Rightarrow> exec r (Suc i) cs
      | st # _ \<Rightarrow>
          Some \<lparr>index = i, text0 = take (length (c # cs) - length (fst st)) (c # cs),
                groups = snd st, rest = fst st\<rparr>)"

text \<open>\<^verbatim>\<open>match[n]\<close>: \<^verbatim>\<open>undefined\<close> when the group did not take part in the match.\<close>

definition group :: "rmatch_result \<Rightarrow> nat \<Rightarrow> string option" where
  "group m n = map_of (groups m) n"

lemma rstar_suffix:
  assumes "\<And>st st'. st' \<in> set (f st) \<Longrightarrow> suffix (fst st') (fst st)"
  shows "st' \<in> set (rstar f n st) \<Longrightarrow> suffix (fst st') (fst st)"
proof (induction n arbitrary: st)
  case 0
  then show ?case by simp
next
  case (Suc n)
  from Suc.prems consider "st' = st"
    | st1 where "st1 \<in> set (f st)" "st' \<in> set (rstar f n st1)"
    by auto
  then show ?case
  proof cases
    case 1
    then show ?thesis by simp
  next
    case 2
    from Suc.IH [OF 2(2)] assms [OF 2(1)] show ?thesis
      by (rule suffix_order.trans)
  qed
qed

lemma rmatch_suffix: "st' \<in> set (rmatch r st) \<Longrightarrow> suffix (fst st') (fst st)"
proof (induction r arbitrary: st st')
  case (Cls P)
  then show ?case
    by (cases "fst st") (auto simp: suffix_Cons split: if_splits)
next
  case (Lit w)
  then show ?case
    by (auto simp: suffix_drop split: if_splits)
next
  case (Seq a b)
  from Seq.prems obtain st1 where "st1 \<in> set (rmatch a st)" "st' \<in> set (rmatch b st1)"
    by auto
  with Seq.IH show ?case
    by (blast intro: suffix_order.trans)
next
  case (Star a)
  with rstar_suffix [of "rmatch a"] show ?case by auto
qed (auto split: if_splits)

lemma rmatch_here:
  assumes "rmatch r (s, []) = st # sts"
  obtains w where "s = w @ fst st" "take (length s - length (fst st)) s = w"
    "(fst st, snd st) \<in> set (rmatch r (w @ fst st, []))"
proof -
  from assms have mem: "st \<in> set (rmatch r (s, []))" by simp
  then have "suffix (fst st) s" using rmatch_suffix by fastforce
  then obtain w where w: "s = w @ fst st" by (auto simp: suffix_def)
  have "take (length s - length (fst st)) s = w"
    by (subst w, subst w) simp
  moreover from mem w have "(fst st, snd st) \<in> set (rmatch r (w @ fst st, []))" by simp
  ultimately show thesis using w that by blast
qed

lemma exec_decomp:
  "exec r i s = Some m \<Longrightarrow>
     \<exists>pre. s = pre @ text0 m @ rest m \<and> index m = i + length pre \<and>
           (rest m, groups m) \<in> set (rmatch r (text0 m @ rest m, []))"
proof (induction r i s rule: exec.induct)
  case (1 r i)
  then obtain st sts where st: "rmatch r ([], []) = st # sts"
    and m: "m = \<lparr>index = i, text0 = [], groups = snd st, rest = fst st\<rparr>"
    by (auto split: list.splits)
  from st obtain w where w: "[] = w @ fst st"
    "(fst st, snd st) \<in> set (rmatch r (w @ fst st, []))"
    by (rule rmatch_here)
  from w(1) have "w = []" "fst st = []" by simp_all
  with w(2) m have "[] = [] @ text0 m @ rest m \<and> index m = i + length ([]::string) \<and>
      (rest m, groups m) \<in> set (rmatch r (text0 m @ rest m, []))"
    by simp
  then show ?case by blast
next
  case (2 r i c cs)
  show ?case
  proof (cases "rmatch r (c # cs, [])")
    case Nil
    with 2 obtain pre where "cs = pre @ text0 m @ rest m" "index m = Suc i + length pre"
      "(rest m, groups m) \<in> set (rmatch r (text0 m @ rest m, []))"
      by auto
    then have "c # cs = (c # pre) @ text0 m @ rest m \<and> index m = i + length (c # pre) \<and>
      (rest m, groups m) \<in> set (rmatch r (text0 m @ rest m, []))"
      by simp
    then show ?thesis by blast
  next
    case (Cons st sts)
    from Cons obtain w where w: "c # cs = w @ fst st"
      "take (length (c # cs) - length (fst st)) (c # cs) = w"
      "(fst st, snd st) \<in> set (rmatch r (w @ fst st, []))"
      by (rule rmatch_here)
    from 2 Cons have "m = \<lparr>index = i, text0 = take (length (c # cs) - length (fst st)) (c # cs),
                groups = snd st, rest = fst st\<rparr>"
      by simp
    with w(2) have m: "m = \<lparr>index = i, text0 = w, groups = snd st, rest = fst st\<rparr>"
      by (simp only:)
    from w(1) w(3) have "c # cs = [] @ text0 m @ rest m \<and> index m = i + length ([]::string) \<and>
      (rest m, groups m) \<in> set (rmatch r (text0 m @ rest m, []))"
      by (simp add: m)
    then show ?thesis by blast
  qed
qed

lemma exec_length:
  "exec r i s = Some m \<Longrightarrow> length (rest m) + length (text0 m) \<le> length s"
  by (drule exec_decomp) auto

text \<open>
  The loop \<^verbatim>\<open>while ((match = regex.exec(line)) !== null) { ... }\<close>: the list of matches it
  visits. After a match the search goes on from the end of the match. When a match is
  empty, \<^verbatim>\<open>lastIndex\<close> does not move and the loop never ends: the result is \<open>None\<close>.
\<close>

function execAll :: "regex \<Rightarrow> nat \<Rightarrow> string \<Rightarrow> rmatch_result list option" where
  "execAll r i s =
     (case exec r i s of
        None \<Rightarrow> Some []
      | Some m \<Rightarrow>
          if text0 m = [] then None
          else map_option ((#) m) (execAll r (index m + length (text0 m)) (rest m)))"
  by pat_completeness auto
termination
proof (relation "measure (\<lambda>(r, i, s). length s)")
  show "wf (measure (\<lambda>(r, i, s). length s))" by simp
next
  fix r i s m
  assume "exec r i s = Some m" "text0 m \<noteq> []"
  with exec_length [of r i s m]
  show "((r, index m + length (text0 m), rest m), (r, i, s)) \<in> measure (\<lambda>(r, i, s). length s)"
    by (cases "text0 m") auto
qed


text \<open>\<^verbatim>\<open>s.replace(regex, t)\<close> for a regex without the global flag: the first match is replaced.\<close>

definition replaceFirst :: "regex \<Rightarrow> string \<Rightarrow> string \<Rightarrow> string" where
  "replaceFirst r t s =
     (case exec r 0 s of None \<Rightarrow> s | Some m \<Rightarrow> take (index m) s @ t @ rest m)"

section \<open>Outcomes of a call\<close>

text \<open>
  A call returns a value, throws, or does not return. TypeScript's types are erased at run
  time, so a method call on \<^verbatim>\<open>undefined\<close> is a \<^verbatim>\<open>TypeError\<close> that the model keeps as a
  branch.
\<close>

datatype js_error = TypeError

datatype 'a outcome = Return 'a | Throw js_error | Diverge

fun andThen :: "'a outcome \<Rightarrow> ('a \<Rightarrow> 'b outcome) \<Rightarrow> 'b outcome" where
  "andThen (Return x) f = f x"
| "andThen (Throw e) f = Throw e"
| "andThen Diverge f = Diverge"

definition ofLoop :: "'a option \<Rightarrow> 'a outcome" where
  "ofLoop r = (case r of None \<Rightarrow> Diverge | Some x \<Rightarrow> Return x)"

section \<open>importParser.ts\<close>

datatype import_type = Import | Require | From | Dynamic | CssImport

text \<open>
  \<^verbatim>\<open>path\<close> is \<^verbatim>\<open>match[1]\<close>, which JavaScript leaves \<^verbatim>\<open>undefined\<close> when the group took no part
  in the match.
\<close>

record ImportInfo =
  type :: import_type
  path :: "string option"
  originalText :: string
  startLine :: nat
  startColumn :: nat
  endLine :: nat
  endColumn :: nat

definition ws :: regex where
  "ws = Cls isSpace"

definition wordChar :: regex where
  "wordChar = Cls isWord"

definition quote :: regex where
  "quote = Cls isQuote"

definition notQuote :: regex where
  "notQuote = Cls (\<lambda>c. \<not> isQuote c)"

definition braces :: regex where
  "braces = seqs [Lit ''{'', Star (Cls (\<lambda>c. c \<noteq> CHR ''}'')), Lit ''}'']"

text \<open>
  \<^verbatim>\<open>/import\s+(?:{[^}]*}|\*\s+as\s+\w+|\w+(?:\s*,\s*{[^}]*})*|\w+)\s+from\s+['"]([^'"]+)['"]/g\<close>
\<close>

definition jsImportRegex :: regex where
  "jsImportRegex =
     seqs [Lit ''import'', Plus ws,
           Alt braces
             (Alt (seqs [Lit ''*'', Plus ws, Lit ''as'', Plus ws, Plus wordChar])
                (Alt (seqs [Plus wordChar, Star (seqs [Star ws, Lit '','', Star ws, braces])])
                   (Plus wordChar))),
           Plus ws, Lit ''from'', Plus ws, quote, Grp 1 (Plus notQuote), quote]"

text \<open>\<^verbatim>\<open>/import\s*\(\s*['"]([^'"]+)['"]\s*\)/g\<close>\<close>

definition dynamicImportRegex :: regex where
  "dynamicImportRegex =
     seqs [Lit ''import'', Star ws, Lit ''('', Star ws, quote, Grp 1 (Plus notQuote), quote,
           Star ws, Lit '')'']"

text \<open>\<^verbatim>\<open>/require\s*\(\s*['"]([^'"]+)['"]\s*\)/g\<close>\<close>

definition requireRegex :: regex where
  "requireRegex =
     seqs [Lit ''require'', Star ws, Lit ''('', Star ws, quote, Grp 1 (Plus notQuote), quote,
           Star ws, Lit '')'']"

text \<open>The record pushed for one match of a pattern on line \<open>lineIndex\<close>.\<close>

definition importOfMatch :: "import_type \<Rightarrow> nat \<Rightarrow> rmatch_result \<Rightarrow> ImportInfo" where
  "importOfMatch t lineIndex m =
     \<lparr>type = t, path = group m 1, originalText = text0 m,
      startLine = lineIndex + 1, startColumn = index m,
      endLine = lineIndex + 1, endColumn = index m + length (text0 m)\<rparr>"

text \<open>
  The body of the line loop of \<^verbatim>\<open>parseJavaScriptImports\<close>: the three \<^verbatim>\<open>while\<close> loops
  in their order. The first loop skips a match whose path is empty or undefined.
\<close>

definition jsLine :: "nat \<Rightarrow> string \<Rightarrow> ImportInfo list outcome" where
  "jsLine lineIndex line =
     andThen (ofLoop (execAll jsImportRegex 0 line)) (\<lambda>ms1.
     andThen (ofLoop (execAll dynamicImportRegex 0 line)) (\<lambda>ms2.
     andThen (ofLoop (execAll requireRegex 0 line)) (\<lambda>ms3.
       Return
         (map (importOfMatch Import lineIndex)
            (filter (\<lambda>m. group m 1 \<noteq> None \<and> group m 1 \<noteq> Some []) ms1)
          @ map (importOfMatch Dynamic lineIndex) ms2
          @ map (importOfMatch Require lineIndex) ms3))))"

text \<open>\<^verbatim>\<open>for (let lineIndex = 0; lineIndex < lines.length; lineIndex++)\<close>\<close>

fun scanLines ::
  "(nat \<Rightarrow> string \<Rightarrow> ImportInfo list outcome) \<Rightarrow> nat \<Rightarrow> string list \<Rightarrow> ImportInfo list outcome"
where
  "scanLines f i [] = Return []"
| "scanLines f i (l # ls) =
     andThen (f i l) (\<lambda>found. andThen (scanLines f (Suc i) ls) (\<lambda>others. Return (found @ others)))"

text \<open>
  \<^verbatim>\<open>content\<close> is \<open>None\<close> when the value passed at run time is \<^verbatim>\<open>undefined\<close>: then
  \<^verbatim>\<open>content.split\<close> throws.
\<close>

definition parseJavaScriptImports :: "string option \<Rightarrow> ImportInfo list outcome" where
  "parseJavaScriptImports content =
     (case content of
        None \<Rightarrow> Throw TypeError
      | Some c \<Rightarrow> scanLines jsLine 0 (split CHR 0x0A c))"

text \<open>\<^verbatim>\<open>/import\s+(\w+(?:\s*,\s*\w+)*)/g\<close>\<close>

definition pyImportRegex :: regex where
  "pyImportRegex =
     seqs [Lit ''import'', Plus ws,
           Grp 1 (seqs [Plus wordChar, Star (seqs [Star ws, Lit '','', Star ws, Plus wordChar])])]"

text \<open>\<^verbatim>\<open>/from\s+(\w+(?:\.\w+)*)\s+import\s+([^;]+)/g\<close>\<close>

definition pyFromRegex :: regex where
  "pyFromRegex =
     seqs [Lit ''from'', Plus ws,
           Grp 1 (seqs [Plus wordChar, Star (seqs [Lit ''.'', Plus wordChar])]),
           Plus ws, Lit ''import'', Plus ws, Grp 2 (Plus (Cls (\<lambda>c. c \<noteq> CHR '';'')))]"

text \<open>One record per module of \<^verbatim>\<open>import a, b, c\<close>, all at the column of the match.\<close>

definition pyModuleImport :: "nat \<Rightarrow> rmatch_result \<Rightarrow> string \<Rightarrow> ImportInfo" where
  "pyModuleImport lineIndex m module =
     \<lparr>type = Import, path = Some module, originalText = ''import '' @ module,
      startLine = lineIndex + 1, startColumn = index m,
      endLine = lineIndex + 1, endColumn = index m + length (''import '' @ module)\<rparr>"

fun pyImportMatches :: "nat \<Rightarrow> rmatch_result list \<Rightarrow> ImportInfo list outcome" where
  "pyImportMatches lineIndex [] = Return []"
| "pyImportMatches lineIndex (m # ms) =
     (case group m 1 of
        None \<Rightarrow> Throw TypeError
      | Some g \<Rightarrow>
          andThen (pyImportMatches lineIndex ms) (\<lambda>others.
            Return (map (pyModuleImport lineIndex m) (map trim (split CHR '','' g)) @ others)))"

definition pyLine :: "nat \<Rightarrow> string \<Rightarrow> ImportInfo list outcome" where
  "pyLine lineIndex line =
     andThen (ofLoop (execAll pyImportRegex 0 line)) (\<lambda>ms1.
     andThen (pyImportMatches lineIndex ms1) (\<lambda>found1.
     andThen (ofLoop (execAll pyFromRegex 0 line)) (\<lambda>ms2.
       Return (found1 @ map (importOfMatch From lineIndex) ms2))))"

definition parsePythonImports :: "string option \<Rightarrow> ImportInfo list outcome" where
  "parsePythonImports content =
     (case content of
        None \<Rightarrow> Throw TypeError
      | Some c \<Rightarrow> scanLines pyLine 0 (split CHR 0x0A c))"

text \<open>\<^verbatim>\<open>/@import\s+(?:url\()?['"]?([^'"\s)]+)['"]?\s*\)?/g\<close>\<close>

definition cssImportRegex :: regex where
  "cssImportRegex =
     seqs [Lit ''@import'', Plus ws, Opt (Lit ''url(''), Opt quote,
           Grp 1 (Plus (Cls (\<lambda>c. \<not> isQuote c \<and> \<not> isSpace c \<and> c \<noteq> CHR '')''))),
           Opt quote, Star ws, Opt (Lit '')'')]"

definition cssLine :: "nat \<Rightarrow> string \<Rightarrow> ImportInfo list outcome" where
  "cssLine lineIndex line =
     andThen (ofLoop (execAll cssImportRegex 0 line)) (\<lambda>ms.
       Return (map (importOfMatch CssImport lineIndex) ms))"

definition parseCSSImports :: "string option \<Rightarrow> ImportInfo list outcome" where
  "parseCSSImports content =
     (case content of
        None \<Rightarrow> Throw TypeError
      | Some c \<Rightarrow> scanLines cssLine 0 (split CHR 0x0A c))"

definition isLocalImport :: "string option \<Rightarrow> bool" where
  "isLocalImport importPath =
     (case importPath of
        None \<Rightarrow> False
      | Some p \<Rightarrow>
          if p = [] then False
          else if startsWith p ''http://'' \<or> startsWith p ''https://'' then False
          else if startsWith p ''./'' \<or> startsWith p ''../'' \<or> startsWith p ''/'' then True
          else if includesStr p ''.js'' \<or> includesStr p ''.ts'' \<or>
                  includesStr p ''.jsx'' \<or> includesStr p ''.tsx'' \<or>
                  includesStr p ''.py'' \<or> includesStr p ''.css'' \<or>
                  includesStr p ''.scss'' \<or> includesStr p ''.sass'' then True
          else if \<not> includesStr p ''/'' then False
          else True)"

text \<open>\<^verbatim>\<open>filePath.split('.').pop()?.toLowerCase()\<close>\<close>

definition extensionOf :: "string \<Rightarrow> string option" where
  "extensionOf filePath = map_option toLowerCase (pop (split CHR ''.'' filePath))"

definition parseFileImports :: "string option \<Rightarrow> string \<Rightarrow> ImportInfo list outcome" where
  "parseFileImports content filePath =
     (let extension = extensionOf filePath
      in if extension \<in> {Some ''js'', Some ''jsx'', Some ''ts'', Some ''tsx''}
           then parseJavaScriptImports content
         else if extension = Some ''py'' then parsePythonImports content
         else if extension \<in> {Some ''css'', Some ''scss'', Some ''sass''}
           then parseCSSImports content
         else Return [])"

text \<open>\<^verbatim>\<open>/\.(js|ts|jsx|tsx)$/\<close> and \<^verbatim>\<open>/\.py$/\<close>\<close>

definition jsExtensionRegex :: regex where
  "jsExtensionRegex =
     seqs [Lit ''.'', Grp 1 (Alt (Lit ''js'') (Alt (Lit ''ts'') (Alt (Lit ''jsx'') (Lit ''tsx'')))),
           Eos]"

definition pyExtensionRegex :: regex where
  "pyExtensionRegex = seqs [Lit ''.py'', Eos]"

text \<open>The last \<^verbatim>\<open>.map\<close> of \<^verbatim>\<open>extractLocalImportPaths\<close>.\<close>

definition stripExtension :: "string \<Rightarrow> string" where
  "stripExtension p =
     (if endsWith p ''.js'' \<or> endsWith p ''.ts'' \<or> endsWith p ''.jsx'' \<or> endsWith p ''.tsx''
        then replaceFirst jsExtensionRegex [] p
      else if endsWith p ''.py'' then replaceFirst pyExtensionRegex [] p
      else p)"

text \<open>
  \<^verbatim>\<open>imports.map(imp => imp.path).filter(isLocalImport).map(...)\<close>: a path that passes the
  filter is a string, since \<^verbatim>\<open>isLocalImport(undefined)\<close> is false.
\<close>

definition extractLocalImportPaths :: "string option \<Rightarrow> string \<Rightarrow> string list outcome" where
  "extractLocalImportPaths content filePath =
     andThen (parseFileImports content filePath) (\<lambda>imports.
       Return
         (List.map_filter (\<lambda>p. if isLocalImport p then map_option stripExtension p else None)
            (map path imports)))"


section \<open>pathResolver.ts\<close>

text \<open>
  \<^verbatim>\<open>pathResolver.ts\<close> imports \<^verbatim>\<open>join\<close>, \<^verbatim>\<open>dirname\<close>, \<^verbatim>\<open>normalizePath\<close> and \<^verbatim>\<open>resolvePath\<close> from
  \<^verbatim>\<open>./pathUtils\<close>. The resolver takes that module as a parameter, so what is proved of it
  holds for every implementation of the four functions.
\<close>

record pathUtils =
  join :: "string \<Rightarrow> string \<Rightarrow> string"
  dirname :: "string \<Rightarrow> string"
  normalizePath :: "string \<Rightarrow> string"
  resolvePath :: "string \<Rightarrow> string \<Rightarrow> string"

text \<open>
  \<^verbatim>\<open>FileData\<close>, with the fields the repository's test gives its records. \<^verbatim>\<open>content\<close> is
  \<open>None\<close> for a record whose content is \<^verbatim>\<open>undefined\<close> at run time.
\<close>

record FileData =
  name :: string
  path :: string
  content :: "string option"
  tokenCount :: nat
  fileSize :: nat
  isBinary :: bool
  isSkipped :: bool

definition FILE_EXTENSIONS_javascript :: "string list" where
  "FILE_EXTENSIONS_javascript = [''.js'', ''.jsx'', ''.ts'', ''.tsx'', ''.mjs'', ''.cjs'']"

definition FILE_EXTENSIONS_python :: "string list" where
  "FILE_EXTENSIONS_python = [''.py'']"

definition FILE_EXTENSIONS_css :: "string list" where
  "FILE_EXTENSIONS_css = [''.css'', ''.scss'', ''.sass'']"

definition FILE_EXTENSIONS_default :: "string list" where
  "FILE_EXTENSIONS_default =
     [''.js'', ''.ts'', ''.jsx'', ''.tsx'', ''.py'', ''.css'', ''.scss'', ''.sass'']"

text \<open>The extensions for which the \<^verbatim>\<open>switch\<close> of \<^verbatim>\<open>getFileExtensions\<close> returns \<^verbatim>\<open>['']\<close>.\<close>

definition recognizedExtensions :: "string list" where
  "recognizedExtensions =
     [''js'', ''jsx'', ''ts'', ''tsx'', ''mjs'', ''cjs'', ''py'', ''css'', ''scss'', ''sass'']"

definition getFileExtensions :: "string \<Rightarrow> string list" where
  "getFileExtensions importPath =
     (case extensionOf importPath of
        None \<Rightarrow> FILE_EXTENSIONS_default
      | Some extension \<Rightarrow>
          if extension \<in> set recognizedExtensions then [[]] else FILE_EXTENSIONS_default)"

text \<open>\<^verbatim>\<open>s.replace(/\\/g, '/')\<close>\<close>

definition replaceBackslashes :: "string \<Rightarrow> string" where
  "replaceBackslashes s = map (\<lambda>c. if c = CHR 0x5C then CHR ''/'' else c) s"

definition arePathsEquivalent :: "pathUtils \<Rightarrow> string \<Rightarrow> string \<Rightarrow> bool" where
  "arePathsEquivalent pu path1 path2 =
     (toLowerCase (replaceBackslashes (normalizePath pu path1)) =
      toLowerCase (replaceBackslashes (normalizePath pu path2)))"

text \<open>The test of the second \<^verbatim>\<open>if\<close> in the loop of \<^verbatim>\<open>findMatchingFiles\<close>.\<close>

definition partialMatch :: "string \<Rightarrow> string \<Rightarrow> bool" where
  "partialMatch normalizedFile normalizedTarget =
     (endsWith normalizedFile (''/'' @ normalizedTarget) \<or>
      normalizedFile = normalizedTarget \<or>
      endsWith normalizedFile (''/'' @ normalizedTarget @ ''/index.js'') \<or>
      endsWith normalizedFile (''/'' @ normalizedTarget @ ''/index.ts'') \<or>
      endsWith normalizedFile (''/'' @ normalizedTarget @ ''/index.jsx'') \<or>
      endsWith normalizedFile (''/'' @ normalizedTarget @ ''/index.tsx''))"

fun findMatchingFiles :: "pathUtils \<Rightarrow> string \<Rightarrow> FileData list \<Rightarrow> string list" where
  "findMatchingFiles pu targetPath [] = []"
| "findMatchingFiles pu targetPath (file # files) =
     (if arePathsEquivalent pu (path file) targetPath
        then path file # findMatchingFiles pu targetPath files
      else if partialMatch (replaceBackslashes (normalizePath pu (path file)))
                (replaceBackslashes (normalizePath pu targetPath))
        then path file # findMatchingFiles pu targetPath files
      else findMatchingFiles pu targetPath files)"

text \<open>
  \<^verbatim>\<open>for (const ext of extensions) { ... resolvedPaths.push(...matchingFiles) }\<close>, with
  \<^verbatim>\<open>resolvedPaths\<close> as the accumulator.
\<close>

fun tryExtensions ::
  "pathUtils \<Rightarrow> string \<Rightarrow> FileData list \<Rightarrow> string list \<Rightarrow> string list \<Rightarrow> string list"
where
  "tryExtensions pu base allFiles [] resolvedPaths = resolvedPaths"
| "tryExtensions pu base allFiles (ext # exts) resolvedPaths =
     tryExtensions pu base allFiles exts
       (resolvedPaths @ findMatchingFiles pu (base @ ext) allFiles)"

definition resolveImportPath ::
  "pathUtils \<Rightarrow> string \<Rightarrow> string \<Rightarrow> FileData list \<Rightarrow> string \<Rightarrow> string list"
where
  "resolveImportPath pu importPath currentFilePath allFiles projectRoot =
     (if startsWith importPath ''/''
        then findMatchingFiles pu (join pu projectRoot importPath) allFiles
      else if startsWith importPath ''./'' \<or> startsWith importPath ''../''
        then (let currentDir = dirname pu currentFilePath;
                  resolvedRelativePath = resolvePath pu currentDir importPath;
                  resolvedPaths =
                    tryExtensions pu resolvedRelativePath allFiles (getFileExtensions importPath) []
              in if length resolvedPaths = 0
                   then resolvedPaths @ findMatchingFiles pu resolvedRelativePath allFiles
                 else resolvedPaths)
      else (let resolvedPaths =
                  tryExtensions pu importPath allFiles (getFileExtensions importPath) []
            in if length resolvedPaths = 0
                 then resolvedPaths @ findMatchingFiles pu importPath allFiles
               else resolvedPaths))"

subsection \<open>The dependency walker\<close>

text \<open>
  The two containers of \<^verbatim>\<open>getDependencyFiles\<close>: the \<^verbatim>\<open>Map\<close> in insertion order and the
  \<^verbatim>\<open>Set\<close> of processed paths. \<open>scanned\<close> is not in the source: it logs, in order, the path of
  every file handed to \<^verbatim>\<open>extractLocalImportPaths\<close>, and nothing reads it.
\<close>

record walker =
  dependencyFiles :: "(string \<times> FileData) list"
  processedFiles :: "string set"
  scanned :: "string list"

text \<open>\<^verbatim>\<open>map.set(k, v)\<close>: a key already present keeps its place.\<close>

fun mapSet :: "'k \<Rightarrow> 'v \<Rightarrow> ('k \<times> 'v) list \<Rightarrow> ('k \<times> 'v) list" where
  "mapSet k v [] = [(k, v)]"
| "mapSet k v (e # es) = (if fst e = k then (k, v) # es else e # mapSet k v es)"

text \<open>
  The loop over \<^verbatim>\<open>resolvedPaths\<close>. \<open>recur\<close> is the recursive call of \<^verbatim>\<open>processFile\<close>; it
  gives \<open>None\<close> when it does not return.
\<close>

fun resolvedLoop ::
  "pathUtils \<Rightarrow> (FileData \<Rightarrow> walker \<Rightarrow> walker option) \<Rightarrow> FileData list \<Rightarrow> FileData list \<Rightarrow>
   string list \<Rightarrow> walker \<Rightarrow> walker option"
where
  "resolvedLoop pu recur selectedFiles allFiles [] w = Some w"
| "resolvedLoop pu recur selectedFiles allFiles (resolvedPath # others) w =
     (case find (\<lambda>f. arePathsEquivalent pu (path f) resolvedPath) allFiles of
        None \<Rightarrow> resolvedLoop pu recur selectedFiles allFiles others w
      | Some dependencyFile \<Rightarrow>
          if \<not> list_ex (\<lambda>f. arePathsEquivalent pu (path f) (path dependencyFile)) selectedFiles
            then (case recur dependencyFile
                         (w\<lparr>dependencyFiles :=
                              mapSet (path dependencyFile) dependencyFile (dependencyFiles w)\<rparr>) of
                    None \<Rightarrow> None
                  | Some w' \<Rightarrow> resolvedLoop pu recur selectedFiles allFiles others w')
          else resolvedLoop pu recur selectedFiles allFiles others w)"

text \<open>The loop over \<^verbatim>\<open>importPaths\<close> of the file at \<open>filePath\<close>.\<close>

fun importLoop ::
  "pathUtils \<Rightarrow> (FileData \<Rightarrow> walker \<Rightarrow> walker option) \<Rightarrow> FileData list \<Rightarrow> FileData list \<Rightarrow>
   string \<Rightarrow> string \<Rightarrow> string list \<Rightarrow> walker \<Rightarrow> walker option"
where
  "importLoop pu recur selectedFiles allFiles projectRoot filePath [] w = Some w"
| "importLoop pu recur selectedFiles allFiles projectRoot filePath (importPath # others) w =
     (case resolvedLoop pu recur selectedFiles allFiles
             (resolveImportPath pu importPath filePath allFiles projectRoot) w of
        None \<Rightarrow> None
      | Some w' \<Rightarrow> importLoop pu recur selectedFiles allFiles projectRoot filePath others w')"

text \<open>
  \<^verbatim>\<open>processFile\<close>, with a bound on the depth of its recursion: \<open>None\<close> when the bound is
  reached or the scan of a file does not return. A \<^verbatim>\<open>TypeError\<close> thrown inside the
  \<^verbatim>\<open>try\<close> block ends the work on this file; the \<^verbatim>\<open>catch\<close> only logs it.
\<close>

primrec processFile ::
  "pathUtils \<Rightarrow> FileData list \<Rightarrow> FileData list \<Rightarrow> string \<Rightarrow> nat \<Rightarrow>
   FileData \<Rightarrow> walker \<Rightarrow> walker option"
where
  "processFile pu selectedFiles allFiles projectRoot 0 = (\<lambda>file w. None)"
| "processFile pu selectedFiles allFiles projectRoot (Suc depth) =
     (\<lambda>file w.
        if path file \<in> processedFiles w then Some w
        else (let w1 = w\<lparr>processedFiles := insert (path file) (processedFiles w),
                          scanned := scanned w @ [path file]\<rparr>
              in case extractLocalImportPaths (content file) (path file) of
                   Diverge \<Rightarrow> None
                 | Throw e \<Rightarrow> Some w1
                 | Return importPaths \<Rightarrow>
                     importLoop pu (processFile pu selectedFiles allFiles projectRoot depth)
                       selectedFiles allFiles projectRoot (path file) importPaths w1))"

text \<open>\<^verbatim>\<open>selectedFiles.forEach(processFile)\<close>\<close>

fun forEachFile ::
  "(FileData \<Rightarrow> walker \<Rightarrow> walker option) \<Rightarrow> FileData list \<Rightarrow> walker \<Rightarrow> walker option"
where
  "forEachFile f [] w = Some w"
| "forEachFile f (file # files) w =
     (case f file w of None \<Rightarrow> None | Some w' \<Rightarrow> forEachFile f files w')"

definition emptyWalker :: walker where
  "emptyWalker = \<lparr>dependencyFiles = [], processedFiles = {}, scanned = []\<rparr>"

text \<open>
  The walk with recursion depth at most \<open>depth\<close>, and \<^verbatim>\<open>getDependencyFiles\<close>: the walk with
  a depth that no chain of distinct files of \<open>allFiles\<close> below a selected file can reach.
\<close>

definition walk ::
  "pathUtils \<Rightarrow> nat \<Rightarrow> FileData list \<Rightarrow> FileData list \<Rightarrow> string \<Rightarrow> walker option"
where
  "walk pu depth selectedFiles allFiles projectRoot =
     forEachFile (processFile pu selectedFiles allFiles projectRoot depth) selectedFiles emptyWalker"

definition getDependencyFiles ::
  "pathUtils \<Rightarrow> FileData list \<Rightarrow> FileData list \<Rightarrow> string \<Rightarrow> FileData list option"
where
  "getDependencyFiles pu selectedFiles allFiles projectRoot =
     map_option (\<lambda>w. map snd (dependencyFiles w))
       (walk pu (length allFiles + 2) selectedFiles allFiles projectRoot)"


subsection \<open>The walker with calls that can raise\<close>

text \<open>
  The \<^verbatim>\<open>try\<close> block of \<^verbatim>\<open>processFile\<close> makes two calls that can raise:
  \<^verbatim>\<open>extractLocalImportPaths(file.content, file.path)\<close>, once, and
  \<^verbatim>\<open>resolveImportPath(importPath, file.path, allFiles, projectRoot)\<close>, once for each import
  path. In \<open>processFile\<close> above only the first can raise, because the path utilities are
  taken as total functions. \<open>processFileWith\<close> is the same function with the two calls as
  parameters, each with an outcome: \<open>extractPaths file\<close> for the first and
  \<open>resolve importPath file\<close> for the second. Whichever raises, control leaves the \<^verbatim>\<open>try\<close>
  block of the call of \<^verbatim>\<open>processFile\<close> at hand: the remaining import paths of this file
  are not looked at, the \<^verbatim>\<open>catch\<close> logs the error, and the call returns normally to its
  caller, with the containers as they were when the error was raised.
\<close>

text \<open>
  How the loop over \<^verbatim>\<open>importPaths\<close> ends: at the end of the list, by an error raised by
  the resolution of an import path, or not at all.
\<close>

datatype loop_result = Completed walker | Interrupted js_error walker | Unfinished

fun importLoopWith ::
  "pathUtils \<Rightarrow> (string \<Rightarrow> string list outcome) \<Rightarrow> (FileData \<Rightarrow> walker \<Rightarrow> walker option) \<Rightarrow>
   FileData list \<Rightarrow> FileData list \<Rightarrow> string list \<Rightarrow> walker \<Rightarrow> loop_result"
where
  "importLoopWith pu resolve recur selectedFiles allFiles [] w = Completed w"
| "importLoopWith pu resolve recur selectedFiles allFiles (importPath # others) w =
     (case resolve importPath of
        Diverge \<Rightarrow> Unfinished
      | Throw e \<Rightarrow> Interrupted e w
      | Return resolvedPaths \<Rightarrow>
          (case resolvedLoop pu recur selectedFiles allFiles resolvedPaths w of
             None \<Rightarrow> Unfinished
           | Some w' \<Rightarrow> importLoopWith pu resolve recur selectedFiles allFiles others w'))"

primrec processFileWith ::
  "pathUtils \<Rightarrow> (FileData \<Rightarrow> string list outcome) \<Rightarrow> (string \<Rightarrow> FileData \<Rightarrow> string list outcome) \<Rightarrow>
   FileData list \<Rightarrow> FileData list \<Rightarrow> nat \<Rightarrow> FileData \<Rightarrow> walker \<Rightarrow> walker option"
where
  "processFileWith pu extractPaths resolve selectedFiles allFiles 0 = (\<lambda>file w. None)"
| "processFileWith pu extractPaths resolve selectedFiles allFiles (Suc depth) =
     (\<lambda>file w.
        if path file \<in> processedFiles w then Some w
        else (let w1 = w\<lparr>processedFiles := insert (path file) (processedFiles w),
                          scanned := scanned w @ [path file]\<rparr>
              in case extractPaths file of
                   Diverge \<Rightarrow> None
                 | Throw e \<Rightarrow> Some w1
                 | Return importPaths \<Rightarrow>
                     (case importLoopWith pu (\<lambda>importPath. resolve importPath file)
                             (processFileWith pu extractPaths resolve selectedFiles allFiles depth)
                             selectedFiles allFiles importPaths w1 of
                        Completed w' \<Rightarrow> Some w'
                      | Interrupted e w' \<Rightarrow> Some w'
                      | Unfinished \<Rightarrow> None)))"

definition walkWith ::
  "pathUtils \<Rightarrow> (FileData \<Rightarrow> string list outcome) \<Rightarrow> (string \<Rightarrow> FileData \<Rightarrow> string list outcome) \<Rightarrow>
   nat \<Rightarrow> FileData list \<Rightarrow> FileData list \<Rightarrow> walker option"
where
  "walkWith pu extractPaths resolve depth selectedFiles allFiles =
     forEachFile (processFileWith pu extractPaths resolve selectedFiles allFiles depth)
       selectedFiles emptyWalker"

text \<open>The two calls as \<^verbatim>\<open>processFile\<close> makes them.\<close>

definition extractOf :: "FileData \<Rightarrow> string list outcome" where
  "extractOf fd = extractLocalImportPaths (content fd) (path fd)"

definition resolveOf ::
  "pathUtils \<Rightarrow> FileData list \<Rightarrow> string \<Rightarrow> string \<Rightarrow> FileData \<Rightarrow> string list outcome"
where
  "resolveOf pu allFiles projectRoot importPath fd =
     Return (resolveImportPath pu importPath (path fd) allFiles projectRoot)"


subsection \<open>The files a walk has to find\<close>

text \<open>
  What the walk is for, said without the walk. A resolved path gives a dependency when a
  record of \<open>allFiles\<close> has an equivalent path (the first such record is taken) and no
  selected file has a path equivalent to that record's.
\<close>

definition acceptedDependency ::
  "pathUtils \<Rightarrow> FileData list \<Rightarrow> FileData list \<Rightarrow> string \<Rightarrow> FileData list"
where
  "acceptedDependency pu selectedFiles allFiles resolvedPath =
     (case find (\<lambda>f. arePathsEquivalent pu (path f) resolvedPath) allFiles of
        None \<Rightarrow> []
      | Some dependencyFile \<Rightarrow>
          if \<not> list_ex (\<lambda>f. arePathsEquivalent pu (path f) (path dependencyFile)) selectedFiles
            then [dependencyFile]
          else [])"

text \<open>
  The resolved paths of the import paths of one file, up to the first import path whose
  resolution raises.
\<close>

fun resolvedUntilRaise :: "(string \<Rightarrow> string list outcome) \<Rightarrow> string list \<Rightarrow> string list" where
  "resolvedUntilRaise resolve [] = []"
| "resolvedUntilRaise resolve (importPath # others) =
     (case resolve importPath of
        Return resolvedPaths \<Rightarrow> resolvedPaths @ resolvedUntilRaise resolve others
      | Throw e \<Rightarrow> []
      | Diverge \<Rightarrow> [])"

text \<open>
  The dependencies that one file names: none when the extraction of its import paths
  raises, and otherwise those of its import paths before the first one whose resolution
  raises.
\<close>

definition directDependencies ::
  "pathUtils \<Rightarrow> (FileData \<Rightarrow> string list outcome) \<Rightarrow> (string \<Rightarrow> FileData \<Rightarrow> string list outcome) \<Rightarrow>
   FileData list \<Rightarrow> FileData list \<Rightarrow> FileData \<Rightarrow> FileData list"
where
  "directDependencies pu extractPaths resolve selectedFiles allFiles fd =
     (case extractPaths fd of
        Return importPaths \<Rightarrow>
          concat (map (acceptedDependency pu selectedFiles allFiles)
                    (resolvedUntilRaise (\<lambda>importPath. resolve importPath fd) importPaths))
      | Throw e \<Rightarrow> []
      | Diverge \<Rightarrow> [])"

definition importEdges ::
  "pathUtils \<Rightarrow> (FileData \<Rightarrow> string list outcome) \<Rightarrow> (string \<Rightarrow> FileData \<Rightarrow> string list outcome) \<Rightarrow>
   FileData list \<Rightarrow> FileData list \<Rightarrow> (FileData \<times> FileData) set"
where
  "importEdges pu extractPaths resolve selectedFiles allFiles =
     {(fd, d). d \<in> set (directDependencies pu extractPaths resolve selectedFiles allFiles fd)}"

text \<open>
  Of several selected records with the same path, \<^verbatim>\<open>processedFiles\<close> lets only the first
  be scanned.
\<close>

definition scannedSelection :: "FileData list \<Rightarrow> FileData set" where
  "scannedSelection selectedFiles =
     {s \<in> set selectedFiles. find (\<lambda>f. path f = path s) selectedFiles = Some s}"

text \<open>
  The files at the end of a chain of one or more imports that starts at a selected file.
  A file whose scan raised is in this set when a chain leads to it; what the raise
  removes are the links from this file that the scan had not followed yet.
\<close>

definition reachableDependencies ::
  "pathUtils \<Rightarrow> (FileData \<Rightarrow> string list outcome) \<Rightarrow> (string \<Rightarrow> FileData \<Rightarrow> string list outcome) \<Rightarrow>
   FileData list \<Rightarrow> FileData list \<Rightarrow> FileData set"
where
  "reachableDependencies pu extractPaths resolve selectedFiles allFiles =
     {d. \<exists>s \<in> scannedSelection selectedFiles.
           (s, d) \<in> (importEdges pu extractPaths resolve selectedFiles allFiles)\<^sup>+}"


subsection \<open>The containers during a walk\<close>

text \<open>
  The two inner loops of \<^verbatim>\<open>processFile\<close> as one loop over the dependencies that the file
  names: each is put into the map and then processed.
\<close>

fun visitEach ::
  "(FileData \<Rightarrow> walker \<Rightarrow> walker option) \<Rightarrow> FileData list \<Rightarrow> walker \<Rightarrow> walker option"
where
  "visitEach recur [] w = Some w"
| "visitEach recur (d # ds) w =
     (case recur d (w\<lparr>dependencyFiles := mapSet (path d) d (dependencyFiles w)\<rparr>) of
        None \<Rightarrow> None
      | Some w' \<Rightarrow> visitEach recur ds w')"

text \<open>The records that can enter the map, and the values of the map.\<close>

definition dependencyCandidates :: "pathUtils \<Rightarrow> FileData list \<Rightarrow> FileData list \<Rightarrow> FileData set" where
  "dependencyCandidates pu selectedFiles allFiles =
     {d. find (\<lambda>f. arePathsEquivalent pu (path f) (path d)) allFiles = Some d \<and>
         \<not> list_ex (\<lambda>f. arePathsEquivalent pu (path f) (path d)) selectedFiles}"

definition dependencyValues :: "walker \<Rightarrow> FileData set" where
  "dependencyValues w = snd ` set (dependencyFiles w)"

definition keyedByPath :: "FileData set \<Rightarrow> walker \<Rightarrow> bool" where
  "keyedByPath D w \<longleftrightarrow> (\<forall>(k, d) \<in> set (dependencyFiles w). k = path d \<and> d \<in> D)"

text \<open>
  What a part of the walk does to the containers, from \<open>w\<close> to \<open>w'\<close>: the map stays keyed
  by the paths of records of \<open>D\<close>, both containers only grow, every file of \<open>N\<close> that this
  part marked as processed has all the dependencies it names (\<open>succs\<close>) in the map and
  marked as processed, and every new value of the map is in \<open>R\<close>.
\<close>

definition walkStep ::
  "FileData set \<Rightarrow> FileData set \<Rightarrow> FileData set \<Rightarrow> (FileData \<Rightarrow> FileData list) \<Rightarrow>
   walker \<Rightarrow> walker \<Rightarrow> bool"
where
  "walkStep D N R succs w w' \<longleftrightarrow>
     keyedByPath D w' \<and> processedFiles w \<subseteq> processedFiles w' \<and>
     dependencyValues w \<subseteq> dependencyValues w' \<and>
     (\<forall>x \<in> N. path x \<in> processedFiles w' \<and> path x \<notin> processedFiles w \<longrightarrow>
        set (succs x) \<subseteq> dependencyValues w' \<and> path ` set (succs x) \<subseteq> processedFiles w') \<and>
     dependencyValues w' \<subseteq> dependencyValues w \<union> R"


subsection \<open>A model of pathUtils\<close>

text \<open>
  \<^verbatim>\<open>pathUtils.ts\<close> is not among the sources. The spec describes it as a path-normalization
  utility providing normalization to forward slashes, directory-of-path (\<^verbatim>\<open>dirname\<close>),
  join, and relative-resolve, and says that the resolver obtains a base absolute path by
  resolving a relative import against the directory of the importing file. The
  definitions below do that on \<^verbatim>\<open>/\<close>-separated paths; they are used only where a statement
  needs concrete paths.
\<close>

text \<open>Modelled from the spec: segments put together with \<^verbatim>\<open>/\<close> between them; the absent
  \<^verbatim>\<open>pathUtils.ts\<close> is described as working on forward-slash paths.\<close>

definition joinSegments :: "string list \<Rightarrow> string" where
  "joinSegments segs = (case segs of [] \<Rightarrow> [] | x # xs \<Rightarrow> x @ concat (map (\<lambda>y. ''/'' @ y) xs))"

text \<open>Modelled from the spec: \<^verbatim>\<open>normalizePath\<close> of the absent \<^verbatim>\<open>pathUtils.ts\<close>, "normalization
  to forward slashes".\<close>

definition normalizePathModel :: "string \<Rightarrow> string" where
  "normalizePathModel p = replaceBackslashes p"

text \<open>Modelled from the spec: \<^verbatim>\<open>dirname\<close> of the absent \<^verbatim>\<open>pathUtils.ts\<close>, "directory-of-path":
  the path without its last segment.\<close>

definition dirnameModel :: "string \<Rightarrow> string" where
  "dirnameModel p =
     (case butlast (split CHR ''/'' (normalizePathModel p)) of
        [] \<Rightarrow> ''.''
      | segs \<Rightarrow> if joinSegments segs = [] then ''/'' else joinSegments segs)"

text \<open>Modelled from the spec: \<^verbatim>\<open>join\<close> of the absent \<^verbatim>\<open>pathUtils.ts\<close>: the two paths with one
  \<^verbatim>\<open>/\<close> between them.\<close>

definition joinModel :: "string \<Rightarrow> string \<Rightarrow> string" where
  "joinModel a b =
     rev (dropWhile (\<lambda>c. c = CHR ''/'') (rev (normalizePathModel a))) @ ''/'' @
     dropWhile (\<lambda>c. c = CHR ''/'') (normalizePathModel b)"

text \<open>Modelled from the spec: the segment walk of the "relative-resolve" of the absent
  \<^verbatim>\<open>pathUtils.ts\<close>. \<^verbatim>\<open>.\<close> and empty segments of the relative path are skipped, \<^verbatim>\<open>..\<close> drops
  the last segment of the directory.\<close>

fun resolveSegments :: "string list \<Rightarrow> string list \<Rightarrow> string list" where
  "resolveSegments base [] = base"
| "resolveSegments base (seg # segs) =
     (if seg = [] \<or> seg = ''.'' then resolveSegments base segs
      else if seg = ''..'' then resolveSegments (butlast base) segs
      else resolveSegments (base @ [seg]) segs)"

text \<open>Modelled from the spec: \<^verbatim>\<open>resolvePath\<close> of the absent \<^verbatim>\<open>pathUtils.ts\<close>, "relative-resolve":
  the relative path resolved against the directory, giving the base absolute path.\<close>

definition resolvePathModel :: "string \<Rightarrow> string \<Rightarrow> string" where
  "resolvePathModel dir rel =
     joinSegments (resolveSegments (split CHR ''/'' (normalizePathModel dir))
                     (split CHR ''/'' (normalizePathModel rel)))"

text \<open>Modelled from the spec: the four functions of the absent \<^verbatim>\<open>pathUtils.ts\<close> that
  \<^verbatim>\<open>pathResolver.ts\<close> imports.\<close>

definition pathUtilsModel :: pathUtils where
  "pathUtilsModel =
     \<lparr>join = joinModel, dirname = dirnameModel, normalizePath = normalizePathModel,
      resolvePath = resolvePathModel\<rparr>"


text \<open>
  The path to which the extension loop of \<^verbatim>\<open>resolveImportPath\<close> appends each extension:
  \<^verbatim>\<open>resolvedRelativePath\<close> in the relative branch, \<^verbatim>\<open>importPath\<close> in the module-style branch.
\<close>

definition importBase :: "pathUtils \<Rightarrow> string \<Rightarrow> string \<Rightarrow> string" where
  "importBase pu importPath currentFilePath =
     (if startsWith importPath ''./'' \<or> startsWith importPath ''../''
        then resolvePath pu (dirname pu currentFilePath) importPath
      else importPath)"

section \<open>Examples\<close>

text \<open>A record with a path and a content.\<close>

definition sourceFile :: "string \<Rightarrow> string \<Rightarrow> FileData" where
  "sourceFile p c =
     \<lparr>name = p, path = p, content = Some c, tokenCount = 0, fileSize = 0,
      isBinary = False, isSkipped = False\<rparr>"

text \<open>The line \<^verbatim>\<open>import <binding> from '<path>';\<close>\<close>

definition importLine :: "string \<Rightarrow> string \<Rightarrow> string" where
  "importLine binding p = ''import '' @ binding @ '' from '' @ [CHR 0x27] @ p @ [CHR 0x27] @ '';''"

text \<open>
  Two files that import each other, a variant of the second that imports a third file
  as well, a record whose content is undefined, and a file that imports it.
\<close>

definition cycleA :: FileData where
  "cycleA = sourceFile ''/p/a.ts'' (importLine ''b'' ''./b'')"

definition cycleB :: FileData where
  "cycleB = sourceFile ''/p/b.ts'' (importLine ''a'' ''./a'')"

definition cycleBC :: FileData where
  "cycleBC = sourceFile ''/p/b.ts'' (importLine ''a'' ''./a'' @ [CHR 0x0A] @ importLine ''c'' ''./c'')"

definition leafC :: FileData where
  "leafC = sourceFile ''/p/c.ts'' []"

definition unloadedFile :: FileData where
  "unloadedFile =
     \<lparr>name = ''bad.ts'', path = ''/p/bad.ts'', content = None, tokenCount = 0, fileSize = 0,
      isBinary = False, isSkipped = False\<rparr>"

definition importsUnloaded :: FileData where
  "importsUnloaded =
     sourceFile ''/p/d.ts'' (importLine ''x'' ''./bad'' @ [CHR 0x0A] @ importLine ''c'' ''./c'')"

text \<open>
  The four records of the repository's test \<^verbatim>\<open>getDependencyFiles resolves relative imports
  including parent segments\<close>.
\<close>

definition testApp :: FileData where
  "testApp =
     sourceFile ''C:/project/src/components/App.ts''
       (importLine ''helper'' ''./utils/helper'' @ [CHR 0x0A] @
        importLine ''constants'' ''../shared/constants'')"

definition testHelper :: FileData where
  "testHelper = sourceFile ''C:/project/src/components/utils/helper.ts'' ''export const value = 42;''"

definition testConstants :: FileData where
  "testConstants =
     sourceFile ''C:/project/src/shared/constants.ts''
       (''export const CONST = '' @ [CHR 0x27] @ ''value'' @ [CHR 0x27] @ '';'')"

definition testIndex :: FileData where
  "testIndex = sourceFile ''C:/project/src/index.ts'' (importLine ''App'' ''./components/App'')"

text \<open>
  A resolution that raises at the import path \<open>bad\<close>; a file that imports \<^verbatim>\<open>./c\<close>,
  \<^verbatim>\<open>./bad\<close> and \<^verbatim>\<open>./d\<close>, in this order; a selection and a project with it.
\<close>

definition resolveRaisingAt ::
  "string \<Rightarrow> (string \<Rightarrow> FileData \<Rightarrow> string list outcome) \<Rightarrow> string \<Rightarrow> FileData \<Rightarrow> string list outcome"
where
  "resolveRaisingAt bad resolve importPath fd =
     (if importPath = bad then Throw TypeError else resolve importPath fd)"

definition importsLeafThenUnloaded :: FileData where
  "importsLeafThenUnloaded =
     sourceFile ''/p/e.ts''
       (importLine ''c'' ''./c'' @ [CHR 0x0A] @ importLine ''x'' ''./bad'' @ [CHR 0x0A] @
        importLine ''d'' ''./d'')"

definition raisingSelection :: "FileData list" where
  "raisingSelection = [importsLeafThenUnloaded, cycleA]"

definition raisingProject :: "FileData list" where
  "raisingProject = [importsLeafThenUnloaded, unloadedFile, leafC, importsUnloaded, cycleA, cycleB]"


text \<open>The content of the extraction example of the spec, and a content with local and
  external imports.\<close>

definition extractionExample :: string where
  "extractionExample =
     importLine ''helper'' ''./utils/helper'' @ [CHR 0x0A] @ importLine ''React'' ''react''"


definition localityExample :: string where
  "localityExample =
     importLine ''x'' ''./x.ts'' @ [CHR 0x0A] @ importLine ''React'' ''react'' @ [CHR 0x0A] @
     importLine ''s'' ''./s.css'' @ [CHR 0x0A] @ importLine ''d'' ''lodash/debounce.js''"


text \<open>The line \<^verbatim>\<open>import '<path>';\<close> of a side-effect import, with \<open>q\<close> as the quote.\<close>

definition sideEffectImport :: "char \<Rightarrow> string \<Rightarrow> string" where
  "sideEffectImport q p = ''import '' @ [q] @ p @ [q] @ '';''"


section \<open>The words a pattern can match\<close>

text \<open>
  The language of a pattern, as a set of words: what the matcher can consume. The end
  anchor consumes nothing.
\<close>

inductive_set starL :: "string set \<Rightarrow> string set" for A :: "string set" where
  starL_Nil: "[] \<in> starL A"
| starL_Step: "u \<in> A \<Longrightarrow> v \<in> starL A \<Longrightarrow> u @ v \<in> starL A"

primrec lang :: "regex \<Rightarrow> string set" where
  "lang (Cls P) = {[c] | c. P c}"
| "lang (Lit w) = {w}"
| "lang (Seq a b) = {u @ v | u v. u \<in> lang a \<and> v \<in> lang b}"
| "lang (Alt a b) = lang a \<union> lang b"
| "lang (Star a) = starL (lang a)"
| "lang (Opt a) = insert [] (lang a)"
| "lang (Grp n a) = lang a"
| "lang Eos = {[]}"


declare execAll.simps [simp del]

section \<open>The matcher consumes words of the language\<close>

lemma rstar_sound:
  assumes "\<And>st st'. st' \<in> set (f st) \<Longrightarrow> \<exists>w\<in>A. fst st = w @ fst st'"
  shows "st' \<in> set (rstar f n st) \<Longrightarrow> \<exists>w\<in>starL A. fst st = w @ fst st'"
proof (induction n arbitrary: st)
  case 0
  then show ?case by (auto intro: starL_Nil)
next
  case (Suc n)
  from Suc.prems consider "st' = st"
    | st1 where "st1 \<in> set (f st)" "st' \<in> set (rstar f n st1)"
    by auto
  then show ?case
  proof cases
    case 1
    then show ?thesis by (auto intro: starL_Nil)
  next
    case 2
    from assms [OF 2(1)] obtain u where u: "u \<in> A" "fst st = u @ fst st1" by blast
    from Suc.IH [OF 2(2)] obtain v where v: "v \<in> starL A" "fst st1 = v @ fst st'" by blast
    from u v have "u @ v \<in> starL A" "fst st = (u @ v) @ fst st'"
      by (auto intro: starL_Step)
    then show ?thesis by blast
  qed
qed

lemma rmatch_sound: "st' \<in> set (rmatch r st) \<Longrightarrow> \<exists>w\<in>lang r. fst st = w @ fst st'"
proof (induction r arbitrary: st st')
  case (Cls P)
  then show ?case by (cases "fst st") (auto split: if_splits)
next
  case (Lit w)
  then have "startsWith (fst st) w" "fst st' = drop (length w) (fst st)"
    by (auto split: if_splits)
  then have "fst st = w @ fst st'"
    by (metis append_take_drop_id startsWith_def)
  then show ?case by simp
next
  case (Seq a b)
  from Seq.prems obtain st1 where 1: "st1 \<in> set (rmatch a st)" "st' \<in> set (rmatch b st1)"
    by auto
  from Seq.IH(1) [OF 1(1)] obtain u where u: "u \<in> lang a" "fst st = u @ fst st1" by blast
  from Seq.IH(2) [OF 1(2)] obtain v where v: "v \<in> lang b" "fst st1 = v @ fst st'" by blast
  from u v have "u @ v \<in> lang (Seq a b)" "fst st = (u @ v) @ fst st'" by auto
  then show ?case by blast
next
  case (Alt a b)
  from Alt.prems have "st' \<in> set (rmatch a st) \<or> st' \<in> set (rmatch b st)" by simp
  with Alt.IH(1) [of st' st] Alt.IH(2) [of st' st] show ?case by auto
next
  case (Star a)
  from Star.prems have "st' \<in> set (rstar (rmatch a) (length (fst st)) st)" by simp
  from rstar_sound [of "rmatch a" "lang a", OF Star.IH this] show ?case by simp
next
  case (Opt a)
  from Opt.prems have "st' \<in> set (rmatch a st) \<or> st' = st" by auto
  with Opt.IH [of st' st] show ?case by auto
next
  case (Grp n a)
  from Grp.prems obtain st1 where "st1 \<in> set (rmatch a st)" "fst st' = fst st1" by auto
  with Grp.IH [of st1 st] show ?case by auto
next
  case Eos
  then show ?case by (auto split: if_splits)
qed

lemma exec_sound:
  assumes "exec r i s = Some m"
  obtains pre where "s = pre @ text0 m @ rest m" "index m = i + length pre" "text0 m \<in> lang r"
proof -
  from exec_decomp [OF assms] obtain pre where pre: "s = pre @ text0 m @ rest m"
    "index m = i + length pre" "(rest m, groups m) \<in> set (rmatch r (text0 m @ rest m, []))"
    by blast
  from rmatch_sound [OF pre(3)] have "text0 m \<in> lang r" by auto
  with pre that show thesis by blast
qed

lemma execAll_total:
  "[] \<notin> lang r \<Longrightarrow> \<exists>ms. execAll r i s = Some ms"
proof (induction r i s rule: execAll.induct)
  case (1 r i s)
  show ?case
  proof (cases "exec r i s")
    case None
    then show ?thesis by (simp add: execAll.simps)
  next
    case (Some m)
    then have "text0 m \<in> lang r" by (rule exec_sound)
    with "1.prems" have ne: "text0 m \<noteq> []" by auto
    from "1.IH" [OF Some ne "1.prems"] obtain ms
      where "execAll r (index m + length (text0 m)) (rest m) = Some ms" by blast
    with Some ne show ?thesis by (simp add: execAll.simps [of r i s])
  qed
qed
lemma lang_seqs_Cons: "lang (seqs (r # rs)) = {u @ v | u v. u \<in> lang r \<and> v \<in> lang (seqs rs)}"
  by simp

lemma nonnull_Lit_seqs: "l \<noteq> [] \<Longrightarrow> [] \<notin> lang (seqs (Lit l # rs))"
  by simp

lemma nonnull_regexes:
  "[] \<notin> lang jsImportRegex" "[] \<notin> lang dynamicImportRegex" "[] \<notin> lang requireRegex"
  "[] \<notin> lang pyImportRegex" "[] \<notin> lang pyFromRegex" "[] \<notin> lang cssImportRegex"
  unfolding jsImportRegex_def dynamicImportRegex_def requireRegex_def pyImportRegex_def
    pyFromRegex_def cssImportRegex_def
  by (simp_all only: nonnull_Lit_seqs list.simps not_False_eq_True)

lemma andThen_Diverge_iff:
  "andThen x f = Diverge \<longleftrightarrow> x = Diverge \<or> (\<exists>v. x = Return v \<and> f v = Diverge)"
  by (cases x) simp_all

lemma ofLoop_execAll: "[] \<notin> lang r \<Longrightarrow> \<exists>ms. ofLoop (execAll r i s) = Return ms"
  using execAll_total [of r i s] by (auto simp: ofLoop_def)

lemma jsLine_not_Diverge: "jsLine i l \<noteq> Diverge"
  using ofLoop_execAll [OF nonnull_regexes(1), of 0 l]
    ofLoop_execAll [OF nonnull_regexes(2), of 0 l]
    ofLoop_execAll [OF nonnull_regexes(3), of 0 l]
  by (auto simp: jsLine_def)

lemma pyImportMatches_not_Diverge: "pyImportMatches i ms \<noteq> Diverge"
  by (induction ms) (auto split: option.splits simp: andThen_Diverge_iff)

lemma pyLine_not_Diverge: "pyLine i l \<noteq> Diverge"
  using ofLoop_execAll [OF nonnull_regexes(4), of 0 l]
    ofLoop_execAll [OF nonnull_regexes(5), of 0 l]
  by (auto simp: pyLine_def andThen_Diverge_iff pyImportMatches_not_Diverge)

lemma cssLine_not_Diverge: "cssLine i l \<noteq> Diverge"
  using ofLoop_execAll [OF nonnull_regexes(6), of 0 l]
  by (auto simp: cssLine_def)

lemma scanLines_not_Diverge:
  "(\<And>i l. f i l \<noteq> Diverge) \<Longrightarrow> scanLines f i ls \<noteq> Diverge"
  by (induction ls arbitrary: i) (auto simp: andThen_Diverge_iff)

lemma parseFileImports_not_Diverge: "parseFileImports c filePath \<noteq> Diverge"
  by (auto simp: parseFileImports_def parseJavaScriptImports_def parsePythonImports_def
      parseCSSImports_def Let_def scanLines_not_Diverge jsLine_not_Diverge pyLine_not_Diverge
      cssLine_not_Diverge split: option.splits)

lemma extractLocalImportPaths_not_Diverge: "extractLocalImportPaths c filePath \<noteq> Diverge"
  by (auto simp: extractLocalImportPaths_def parseFileImports_not_Diverge andThen_Diverge_iff)

section \<open>Invariants of the walker\<close>

text \<open>
  A property that holds of the empty containers, and that marking a file processed and
  adding an unselected file of \<open>allFiles\<close> to the map both preserve, holds of the
  containers at the end of the walk.
\<close>

lemma find_in_set: "find P xs = Some x \<Longrightarrow> x \<in> set xs \<and> P x"
  by (auto simp: find_Some_iff)

lemma resolvedLoop_rule:
  assumes recur: "\<And>(dep::FileData) w w'. dep \<in> set allFiles \<Longrightarrow> I w \<Longrightarrow> recur dep w = Some w' \<Longrightarrow> I w'"
    and add: "\<And>(dep::FileData) w. I w \<Longrightarrow> dep \<in> set allFiles \<Longrightarrow>
               \<not> list_ex (\<lambda>f. arePathsEquivalent pu (path f) (path dep)) selectedFiles \<Longrightarrow>
               I (w\<lparr>dependencyFiles := mapSet (path dep) dep (dependencyFiles w)\<rparr>)"
  shows "I w \<Longrightarrow> resolvedLoop pu recur selectedFiles allFiles rps w = Some w' \<Longrightarrow> I w'"
proof (induction rps arbitrary: w)
  case Nil
  then show ?case by simp
next
  case (Cons rp rps)
  show ?case
  proof (cases "find (\<lambda>f. arePathsEquivalent pu (path f) rp) allFiles")
    case None
    with Cons show ?thesis by simp
  next
    case (Some dep)
    then have dep: "dep \<in> set allFiles" by (simp add: find_in_set)
    show ?thesis
    proof (cases "list_ex (\<lambda>f. arePathsEquivalent pu (path f) (path dep)) selectedFiles")
      case True
      with Cons Some show ?thesis by simp
    next
      case False
      let ?w1 = "w\<lparr>dependencyFiles := mapSet (path dep) dep (dependencyFiles w)\<rparr>"
      from Cons.prems(2) Some False obtain w2 where w2: "recur dep ?w1 = Some w2"
        "resolvedLoop pu recur selectedFiles allFiles rps w2 = Some w'"
        by (auto split: option.splits)
      have "I ?w1" using Cons.prems(1) dep False by (rule add)
      with dep have "I w2" using w2(1) by (rule recur)
      from Cons.IH [OF this w2(2)] show ?thesis .
    qed
  qed
qed

lemma importLoop_rule:
  assumes recur: "\<And>(dep::FileData) w w'. dep \<in> set allFiles \<Longrightarrow> I w \<Longrightarrow> recur dep w = Some w' \<Longrightarrow> I w'"
    and add: "\<And>(dep::FileData) w. I w \<Longrightarrow> dep \<in> set allFiles \<Longrightarrow>
               \<not> list_ex (\<lambda>f. arePathsEquivalent pu (path f) (path dep)) selectedFiles \<Longrightarrow>
               I (w\<lparr>dependencyFiles := mapSet (path dep) dep (dependencyFiles w)\<rparr>)"
  shows "I w \<Longrightarrow> importLoop pu recur selectedFiles allFiles root fp imps w = Some w' \<Longrightarrow> I w'"
proof (induction imps arbitrary: w)
  case Nil
  then show ?case by simp
next
  case (Cons imp imps)
  from Cons.prems(2) obtain w2 where w2:
    "resolvedLoop pu recur selectedFiles allFiles (resolveImportPath pu imp fp allFiles root) w = Some w2"
    "importLoop pu recur selectedFiles allFiles root fp imps w2 = Some w'"
    by (auto split: option.splits)
  have "I w2"
    by (rule resolvedLoop_rule [where I = I])
      (fact recur, fact add, fact Cons.prems(1), fact w2(1))
  from Cons.IH [OF this w2(2)] show ?case .
qed

lemma processFile_rule:
  assumes mark: "\<And>(fd::FileData) w. I w \<Longrightarrow> path fd \<notin> processedFiles w \<Longrightarrow>
               I (w\<lparr>processedFiles := insert (path fd) (processedFiles w),
                    scanned := scanned w @ [path fd]\<rparr>)"
    and add: "\<And>(dep::FileData) w. I w \<Longrightarrow> dep \<in> set allFiles \<Longrightarrow>
               \<not> list_ex (\<lambda>f. arePathsEquivalent pu (path f) (path dep)) selectedFiles \<Longrightarrow>
               I (w\<lparr>dependencyFiles := mapSet (path dep) dep (dependencyFiles w)\<rparr>)"
  shows "I w \<Longrightarrow> processFile pu selectedFiles allFiles root depth fd w = Some w' \<Longrightarrow> I w'"
proof (induction depth arbitrary: fd w w')
  case 0
  then show ?case by simp
next
  case (Suc depth)
  show ?case
  proof (cases "path fd \<in> processedFiles w")
    case True
    with Suc.prems show ?thesis by simp
  next
    case False
    let ?w1 = "w\<lparr>processedFiles := insert (path fd) (processedFiles w),
                  scanned := scanned w @ [path fd]\<rparr>"
    have I1: "I ?w1" using Suc.prems(1) False by (rule mark)
    show ?thesis
    proof (cases "extractLocalImportPaths (content fd) (path fd)")
      case (Return imps)
      with Suc.prems(2) False have
        "importLoop pu (processFile pu selectedFiles allFiles root depth) selectedFiles allFiles
           root (path fd) imps ?w1 = Some w'"
        by (simp add: Let_def)
      then show ?thesis
        by (rule importLoop_rule [where I = I, rotated -1]) (erule (1) Suc.IH, fact add, fact I1)
    next
      case (Throw e)
      with Suc.prems(2) False I1 show ?thesis by (simp add: Let_def)
    next
      case Diverge
      with Suc.prems(2) False show ?thesis by (simp add: Let_def)
    qed
  qed
qed

lemma forEachFile_rule:
  assumes "\<And>(fd::FileData) w w'. I w \<Longrightarrow> f fd w = Some w' \<Longrightarrow> I w'"
  shows "I w \<Longrightarrow> forEachFile f files w = Some w' \<Longrightarrow> I w'"
proof (induction files arbitrary: w)
  case Nil
  then show ?case by simp
next
  case (Cons fd files)
  from Cons.prems(2) obtain w2 where "f fd w = Some w2" "forEachFile f files w2 = Some w'"
    by (auto split: option.splits)
  with assms [of w fd w2] Cons.IH [of w2] Cons.prems(1) show ?case by blast
qed

lemma walk_rule:
  assumes mark: "\<And>(fd::FileData) w. I w \<Longrightarrow> path fd \<notin> processedFiles w \<Longrightarrow>
               I (w\<lparr>processedFiles := insert (path fd) (processedFiles w),
                    scanned := scanned w @ [path fd]\<rparr>)"
    and add: "\<And>(dep::FileData) w. I w \<Longrightarrow> dep \<in> set allFiles \<Longrightarrow>
               \<not> list_ex (\<lambda>f. arePathsEquivalent pu (path f) (path dep)) selectedFiles \<Longrightarrow>
               I (w\<lparr>dependencyFiles := mapSet (path dep) dep (dependencyFiles w)\<rparr>)"
    and init: "I emptyWalker"
    and walk: "walk pu depth selectedFiles allFiles root = Some w'"
  shows "I w'"
proof -
  have step: "I w2"
    if "I w1" and "processFile pu selectedFiles allFiles root depth fd w1 = Some w2"
    for fd w1 w2
    using mark add that by (rule processFile_rule [where I = I])
  from walk have "forEachFile (processFile pu selectedFiles allFiles root depth)
      selectedFiles emptyWalker = Some w'"
    by (simp add: walk_def)
  show ?thesis
    by (rule forEachFile_rule [where I = I]) (erule (1) step, fact init, fact)
qed

section \<open>The walk returns\<close>

text \<open>
  The depth of the recursion is below the number of paths of \<open>allFiles\<close>, and the path of
  the file at hand, that are not yet in \<^verbatim>\<open>processedFiles\<close>.
\<close>

lemma resolvedLoop_total:
  assumes recur: "\<And>(dep::FileData) w. dep \<in> set allFiles \<Longrightarrow> S \<subseteq> processedFiles w \<Longrightarrow>
                    \<exists>w'. recur dep w = Some w' \<and> S \<subseteq> processedFiles w'"
  shows "S \<subseteq> processedFiles w \<Longrightarrow>
         \<exists>w'. resolvedLoop pu recur selectedFiles allFiles rps w = Some w' \<and> S \<subseteq> processedFiles w'"
proof (induction rps arbitrary: w)
  case Nil
  then show ?case by simp
next
  case (Cons rp rps)
  show ?case
  proof (cases "find (\<lambda>f. arePathsEquivalent pu (path f) rp) allFiles")
    case None
    with Cons show ?thesis by simp
  next
    case (Some dep)
    then have dep: "dep \<in> set allFiles" by (simp add: find_in_set)
    show ?thesis
    proof (cases "list_ex (\<lambda>f. arePathsEquivalent pu (path f) (path dep)) selectedFiles")
      case True
      with Cons Some show ?thesis by simp
    next
      case False
      let ?w1 = "w\<lparr>dependencyFiles := mapSet (path dep) dep (dependencyFiles w)\<rparr>"
      from Cons.prems have "S \<subseteq> processedFiles ?w1" by simp
      from recur [OF dep this] obtain w2 where w2: "recur dep ?w1 = Some w2" "S \<subseteq> processedFiles w2"
        by blast
      from Cons.IH [OF w2(2)] obtain w' where
        "resolvedLoop pu recur selectedFiles allFiles rps w2 = Some w'" "S \<subseteq> processedFiles w'"
        by blast
      with Some False w2(1) show ?thesis by simp
    qed
  qed
qed

lemma importLoop_total:
  assumes recur: "\<And>(dep::FileData) w. dep \<in> set allFiles \<Longrightarrow> S \<subseteq> processedFiles w \<Longrightarrow>
                    \<exists>w'. recur dep w = Some w' \<and> S \<subseteq> processedFiles w'"
  shows "S \<subseteq> processedFiles w \<Longrightarrow>
         \<exists>w'. importLoop pu recur selectedFiles allFiles root fp imps w = Some w' \<and>
              S \<subseteq> processedFiles w'"
proof (induction imps arbitrary: w)
  case Nil
  then show ?case by simp
next
  case (Cons imp imps)
  from resolvedLoop_total [of allFiles S recur, OF recur Cons.prems]
  obtain w2 where w2:
    "resolvedLoop pu recur selectedFiles allFiles (resolveImportPath pu imp fp allFiles root) w = Some w2"
    "S \<subseteq> processedFiles w2"
    by blast
  from Cons.IH [OF w2(2)] obtain w' where
    "importLoop pu recur selectedFiles allFiles root fp imps w2 = Some w'" "S \<subseteq> processedFiles w'"
    by blast
  with w2(1) show ?case by simp
qed

lemma processFile_total:
  "card (insert (path fd) (path ` set allFiles) - processedFiles w) < depth \<Longrightarrow>
     \<exists>w'. processFile pu selectedFiles allFiles root depth fd w = Some w' \<and>
          processedFiles w \<subseteq> processedFiles w'"
proof (induction depth arbitrary: fd w)
  case 0
  then show ?case by simp
next
  case (Suc depth)
  show ?case
  proof (cases "path fd \<in> processedFiles w")
    case True
    then show ?thesis by simp
  next
    case False
    let ?w1 = "w\<lparr>processedFiles := insert (path fd) (processedFiles w),
                  scanned := scanned w @ [path fd]\<rparr>"
    let ?S = "insert (path fd) (processedFiles w)"
    have recur: "\<exists>w'. processFile pu selectedFiles allFiles root depth dep w2 = Some w' \<and>
                  ?S \<subseteq> processedFiles w'"
      if dep: "dep \<in> set allFiles" and sub: "?S \<subseteq> processedFiles w2" for dep :: FileData and w2
    proof -
      have "insert (path dep) (path ` set allFiles) - processedFiles w2
              \<subset> insert (path fd) (path ` set allFiles) - processedFiles w"
        using dep sub False by auto
      then have "card (insert (path dep) (path ` set allFiles) - processedFiles w2)
              < card (insert (path fd) (path ` set allFiles) - processedFiles w)"
        by (intro psubset_card_mono) auto
      with Suc.prems have "card (insert (path dep) (path ` set allFiles) - processedFiles w2) < depth"
        by simp
      from Suc.IH [OF this] sub show ?thesis by blast
    qed
    show ?thesis
    proof (cases "extractLocalImportPaths (content fd) (path fd)")
      case (Return imps)
      have "?S \<subseteq> processedFiles ?w1" by simp
      from importLoop_total [of allFiles ?S "processFile pu selectedFiles allFiles root depth",
          OF recur this]
      obtain w' where "importLoop pu (processFile pu selectedFiles allFiles root depth)
          selectedFiles allFiles root (path fd) imps ?w1 = Some w'" "?S \<subseteq> processedFiles w'"
        by blast
      with Return False show ?thesis by (auto simp: Let_def)
    next
      case (Throw e)
      with False show ?thesis by (auto simp: Let_def)
    next
      case Diverge
      then show ?thesis by (simp add: extractLocalImportPaths_not_Diverge)
    qed
  qed
qed

lemma forEachFile_total:
  assumes "\<And>(fd::FileData) w. \<exists>w'. f fd w = Some w'"
  shows "\<exists>w'. forEachFile f files w = Some w'"
proof (induction files arbitrary: w)
  case Nil
  then show ?case by simp
next
  case (Cons fd files)
  from assms obtain w2 where "f fd w = Some w2" by blast
  with Cons [of w2] show ?case by simp
qed

lemma card_unprocessed_bound:
  "card (insert (path fd) (path ` set allFiles) - processedFiles w) < length allFiles + 2"
proof -
  have "card (insert (path fd) (path ` set allFiles) - processedFiles w)
          \<le> card (insert (path fd) (path ` set allFiles))"
    by (intro card_mono) auto
  also have "\<dots> \<le> Suc (card (path ` set allFiles))"
    by (simp add: card_insert_if)
  also have "\<dots> \<le> Suc (length allFiles)"
    using card_image_le [of "set allFiles" path] card_length [of allFiles] by simp
  finally show ?thesis by simp
qed

lemma walk_total:
  assumes "length allFiles + 2 \<le> depth"
  shows "\<exists>w. walk pu depth selectedFiles allFiles root = Some w"
proof -
  have "\<exists>w'. processFile pu selectedFiles allFiles root depth fd w = Some w'"
    for fd :: FileData and w
    using processFile_total [of fd allFiles w depth pu selectedFiles root]
      card_unprocessed_bound [of fd allFiles w] assms
    by fastforce
  then show ?thesis
    unfolding walk_def by (rule forEachFile_total)
qed

lemma getDependencyFiles_total:
  "\<exists>deps. getDependencyFiles pu selectedFiles allFiles root = Some deps"
  using walk_total [of allFiles "length allFiles + 2" pu selectedFiles root]
  by (auto simp: getDependencyFiles_def)

lemma set_mapSet: "set (mapSet k v m) \<subseteq> insert (k, v) (set m)"
  by (induction m) auto

lemma walk_dependency_invariant:
  assumes "walk pu depth selectedFiles allFiles root = Some w"
  shows "\<forall>(k, d) \<in> set (dependencyFiles w).
           k = path d \<and> d \<in> set allFiles \<and>
           \<not> list_ex (\<lambda>f. arePathsEquivalent pu (path f) (path d)) selectedFiles"
proof (rule walk_rule [where I = "\<lambda>w. \<forall>(k, d) \<in> set (dependencyFiles w).
           k = path d \<and> d \<in> set allFiles \<and>
           \<not> list_ex (\<lambda>f. arePathsEquivalent pu (path f) (path d)) selectedFiles", OF _ _ _ assms])
  show "\<forall>(k, d) \<in> set (dependencyFiles emptyWalker).
           k = path d \<and> d \<in> set allFiles \<and>
           \<not> list_ex (\<lambda>f. arePathsEquivalent pu (path f) (path d)) selectedFiles"
    by (simp add: emptyWalker_def)
next
  fix dep :: FileData and w :: walker
  assume "\<forall>(k, d) \<in> set (dependencyFiles w).
           k = path d \<and> d \<in> set allFiles \<and>
           \<not> list_ex (\<lambda>f. arePathsEquivalent pu (path f) (path d)) selectedFiles"
    "dep \<in> set allFiles"
    "\<not> list_ex (\<lambda>f. arePathsEquivalent pu (path f) (path dep)) selectedFiles"
  then show "\<forall>(k, d) \<in> set (dependencyFiles
                (w\<lparr>dependencyFiles := mapSet (path dep) dep (dependencyFiles w)\<rparr>)).
           k = path d \<and> d \<in> set allFiles \<and>
           \<not> list_ex (\<lambda>f. arePathsEquivalent pu (path f) (path d)) selectedFiles"
    using set_mapSet [of "path dep" dep "dependencyFiles w"] by auto
qed simp

lemma walk_scanned_invariant:
  assumes "walk pu depth selectedFiles allFiles root = Some w"
  shows "distinct (scanned w) \<and> set (scanned w) = processedFiles w"
  by (rule walk_rule [where I = "\<lambda>w. distinct (scanned w) \<and> set (scanned w) = processedFiles w",
        OF _ _ _ assms])
    (auto simp: emptyWalker_def)

lemma resolvedLoop_mono:
  assumes "\<And>(dep::FileData) w w'. recur dep w = Some w' \<Longrightarrow> recur' dep w = Some w'"
  shows "resolvedLoop pu recur selectedFiles allFiles rps w = Some w' \<Longrightarrow>
         resolvedLoop pu recur' selectedFiles allFiles rps w = Some w'"
proof (induction rps arbitrary: w)
  case Nil
  then show ?case by simp
next
  case (Cons rp rps)
  then show ?case
    by (auto split: option.splits if_splits dest: assms)
qed

lemma importLoop_mono:
  assumes "\<And>(dep::FileData) w w'. recur dep w = Some w' \<Longrightarrow> recur' dep w = Some w'"
  shows "importLoop pu recur selectedFiles allFiles root fp imps w = Some w' \<Longrightarrow>
         importLoop pu recur' selectedFiles allFiles root fp imps w = Some w'"
proof (induction imps arbitrary: w)
  case Nil
  then show ?case by simp
next
  case (Cons imp imps)
  from Cons.prems obtain w2 where w2:
    "resolvedLoop pu recur selectedFiles allFiles (resolveImportPath pu imp fp allFiles root) w = Some w2"
    "importLoop pu recur selectedFiles allFiles root fp imps w2 = Some w'"
    by (auto split: option.splits)
  from resolvedLoop_mono [of recur recur', OF assms w2(1)] Cons.IH [OF w2(2)]
  show ?case by simp
qed

lemma processFile_Suc:
  "processFile pu selectedFiles allFiles root depth fd w = Some w' \<Longrightarrow>
   processFile pu selectedFiles allFiles root (Suc depth) fd w = Some w'"
proof (induction depth arbitrary: fd w w')
  case 0
  then show ?case by simp
next
  case (Suc depth)
  show ?case
  proof (cases "path fd \<in> processedFiles w")
    case True
    with Suc.prems show ?thesis by simp
  next
    case False
    let ?w1 = "w\<lparr>processedFiles := insert (path fd) (processedFiles w),
                  scanned := scanned w @ [path fd]\<rparr>"
    show ?thesis
    proof (cases "extractLocalImportPaths (content fd) (path fd)")
      case (Return imps)
      with Suc.prems False have
        "importLoop pu (processFile pu selectedFiles allFiles root depth) selectedFiles allFiles
           root (path fd) imps ?w1 = Some w'"
        by (simp add: Let_def)
      then have
        "importLoop pu (processFile pu selectedFiles allFiles root (Suc depth)) selectedFiles allFiles
           root (path fd) imps ?w1 = Some w'"
        by (rule importLoop_mono [rotated]) (rule Suc.IH)
      with Return False show ?thesis
        by (simp add: processFile.simps(2) [of _ _ _ _ "Suc depth"] Let_def)
    next
      case (Throw e)
      with Suc.prems False show ?thesis by (simp add: Let_def)
    next
      case Diverge
      with Suc.prems False show ?thesis by (simp add: Let_def)
    qed
  qed
qed

lemma processFile_le:
  "depth \<le> depth' \<Longrightarrow> processFile pu selectedFiles allFiles root depth fd w = Some w' \<Longrightarrow>
   processFile pu selectedFiles allFiles root depth' fd w = Some w'"
proof (induction rule: dec_induct)
  case base
  then show ?case .
next
  case (step n)
  from step.IH [OF step.prems] show ?case by (rule processFile_Suc)
qed

lemma forEachFile_mono:
  assumes "\<And>(fd::FileData) w w'. f fd w = Some w' \<Longrightarrow> g fd w = Some w'"
  shows "forEachFile f files w = Some w' \<Longrightarrow> forEachFile g files w = Some w'"
  by (induction files arbitrary: w) (auto split: option.splits dest: assms)

lemma walk_le:
  assumes "walk pu depth selectedFiles allFiles root = Some w" and "depth \<le> depth'"
  shows "walk pu depth' selectedFiles allFiles root = Some w"
  using assms(1) unfolding walk_def
  by (rule forEachFile_mono [rotated]) (rule processFile_le [OF assms(2)])

section \<open>The walk finds the reachable files\<close>

text \<open>
  \<open>processFile\<close> is \<open>processFileWith\<close> at the two calls that the source makes.
\<close>

lemma importLoopWith_resolveOf:
  "(case importLoopWith pu (\<lambda>importPath. resolveOf pu allFiles root importPath fd) recur
           selectedFiles allFiles imps w of
      Completed w' \<Rightarrow> Some w' | Interrupted e w' \<Rightarrow> Some w' | Unfinished \<Rightarrow> None) =
   importLoop pu recur selectedFiles allFiles root (path fd) imps w"
  by (induction imps arbitrary: w) (simp_all add: resolveOf_def split: option.splits)

lemma processFile_processFileWith:
  "processFile pu selectedFiles allFiles root depth =
   processFileWith pu extractOf (resolveOf pu allFiles root) selectedFiles allFiles depth"
proof (induction depth)
  case 0
  show ?case by simp
next
  case (Suc depth)
  show ?case
    by (rule ext, rule ext)
      (simp add: Suc extractOf_def importLoopWith_resolveOf Let_def
        split: outcome.splits)
qed

lemma walk_walkWith:
  "walk pu depth selectedFiles allFiles root =
   walkWith pu extractOf (resolveOf pu allFiles root) depth selectedFiles allFiles"
  by (simp add: walk_def walkWith_def processFile_processFileWith)

text \<open>
  When no call diverges, one call of \<open>processFileWith\<close> marks the file and visits the
  dependencies it names, in order.
\<close>

lemma visitEach_append:
  "visitEach recur (xs @ ys) w =
     (case visitEach recur xs w of None \<Rightarrow> None | Some w' \<Rightarrow> visitEach recur ys w')"
  by (induction xs arbitrary: w) (auto split: option.splits)

lemma resolvedLoop_visitEach:
  "resolvedLoop pu recur selectedFiles allFiles rps w =
     visitEach recur (concat (map (acceptedDependency pu selectedFiles allFiles) rps)) w"
proof (induction rps arbitrary: w)
  case Nil
  then show ?case by simp
next
  case (Cons rp rps)
  show ?case
  proof (cases "find (\<lambda>f. arePathsEquivalent pu (path f) rp) allFiles")
    case None
    with Cons show ?thesis by (simp add: acceptedDependency_def)
  next
    case (Some dep)
    with Cons show ?thesis
      by (simp add: acceptedDependency_def split: option.splits)
  qed
qed

lemma importLoopWith_visitEach:
  assumes "\<And>importPath. resolve importPath \<noteq> Diverge"
  shows "(case importLoopWith pu resolve recur selectedFiles allFiles imps w of
            Completed w' \<Rightarrow> Some w' | Interrupted e w' \<Rightarrow> Some w' | Unfinished \<Rightarrow> None) =
         visitEach recur
           (concat (map (acceptedDependency pu selectedFiles allFiles)
                      (resolvedUntilRaise resolve imps))) w"
proof (induction imps arbitrary: w)
  case Nil
  then show ?case by simp
next
  case (Cons imp imps)
  show ?case
  proof (cases "resolve imp")
    case (Return rps)
    with Cons show ?thesis
      by (simp add: resolvedLoop_visitEach visitEach_append split: option.splits)
  next
    case (Throw e)
    then show ?thesis by simp
  next
    case Diverge
    with assms show ?thesis by simp
  qed
qed

lemma processFileWith_Suc:
  assumes "\<And>fd. extractPaths fd \<noteq> Diverge" and "\<And>importPath fd. resolve importPath fd \<noteq> Diverge"
  shows "processFileWith pu extractPaths resolve selectedFiles allFiles (Suc depth) fd w =
     (if path fd \<in> processedFiles w then Some w
      else visitEach (processFileWith pu extractPaths resolve selectedFiles allFiles depth)
             (directDependencies pu extractPaths resolve selectedFiles allFiles fd)
             (w\<lparr>processedFiles := insert (path fd) (processedFiles w),
                scanned := scanned w @ [path fd]\<rparr>))"
proof (cases "extractPaths fd")
  case (Return imps)
  have "\<And>importPath. resolve importPath fd \<noteq> Diverge" by (rule assms(2))
  from importLoopWith_visitEach [of "\<lambda>importPath. resolve importPath fd", OF this] Return
  show ?thesis by (simp add: Let_def directDependencies_def)
next
  case (Throw e)
  then show ?thesis by (simp add: Let_def directDependencies_def)
next
  case Diverge
  with assms(1) show ?thesis by simp
qed

text \<open>
  The records that can enter the map have pairwise distinct paths, and so have they
  together with the selected files that are scanned: the set of processed paths tells
  which of them have been visited.
\<close>

lemma walkStep_refl: "keyedByPath D w \<Longrightarrow> walkStep D N R succs w w"
  by (simp add: walkStep_def)

lemma walkStep_trans:
  assumes 1: "walkStep D N R succs w w1" and 2: "walkStep D N R succs w1 w2"
  shows "walkStep D N R succs w w2"
proof -
  from 1 have p1: "processedFiles w \<subseteq> processedFiles w1"
    and v1: "dependencyValues w \<subseteq> dependencyValues w1"
    and c1: "\<And>x. x \<in> N \<Longrightarrow> path x \<in> processedFiles w1 \<Longrightarrow> path x \<notin> processedFiles w \<Longrightarrow>
        set (succs x) \<subseteq> dependencyValues w1 \<and> path ` set (succs x) \<subseteq> processedFiles w1"
    and r1: "dependencyValues w1 \<subseteq> dependencyValues w \<union> R"
    by (simp_all add: walkStep_def)
  from 2 have k2: "keyedByPath D w2" and p2: "processedFiles w1 \<subseteq> processedFiles w2"
    and v2: "dependencyValues w1 \<subseteq> dependencyValues w2"
    and c2: "\<And>x. x \<in> N \<Longrightarrow> path x \<in> processedFiles w2 \<Longrightarrow> path x \<notin> processedFiles w1 \<Longrightarrow>
        set (succs x) \<subseteq> dependencyValues w2 \<and> path ` set (succs x) \<subseteq> processedFiles w2"
    and r2: "dependencyValues w2 \<subseteq> dependencyValues w1 \<union> R"
    by (simp_all add: walkStep_def)
  have c: "set (succs x) \<subseteq> dependencyValues w2 \<and> path ` set (succs x) \<subseteq> processedFiles w2"
    if x: "x \<in> N" "path x \<in> processedFiles w2" "path x \<notin> processedFiles w" for x
  proof (cases "path x \<in> processedFiles w1")
    case True
    from c1 [OF x(1) True x(3)] v2 p2 show ?thesis by blast
  next
    case False
    from c2 [OF x(1) x(2) False] show ?thesis .
  qed
  from p1 p2 have "processedFiles w \<subseteq> processedFiles w2" by blast
  moreover from v1 v2 have "dependencyValues w \<subseteq> dependencyValues w2" by blast
  moreover from r1 r2 have "dependencyValues w2 \<subseteq> dependencyValues w \<union> R" by blast
  ultimately show ?thesis using k2 c by (simp add: walkStep_def)
qed

lemma acceptedDependency_candidate:
  assumes "d \<in> set (acceptedDependency pu selectedFiles allFiles rp)"
  shows "d \<in> dependencyCandidates pu selectedFiles allFiles \<and> d \<in> set allFiles"
proof -
  from assms have f: "find (\<lambda>f. arePathsEquivalent pu (path f) rp) allFiles = Some d"
    and ns: "\<not> list_ex (\<lambda>f. arePathsEquivalent pu (path f) (path d)) selectedFiles"
    by (auto simp: acceptedDependency_def split: option.splits if_splits)
  from f have "d \<in> set allFiles" and eq: "arePathsEquivalent pu (path d) rp"
    by (auto simp: find_Some_iff)
  from eq have same: "(\<lambda>f. arePathsEquivalent pu (path f) (path d)) =
      (\<lambda>f. arePathsEquivalent pu (path f) rp)"
    by (auto simp: arePathsEquivalent_def)
  from f have "find (\<lambda>f. arePathsEquivalent pu (path f) (path d)) allFiles = Some d"
    by (simp only: same)
  with ns \<open>d \<in> set allFiles\<close> show ?thesis by (simp add: dependencyCandidates_def)
qed

lemma directDependencies_candidates:
  "d \<in> set (directDependencies pu extractPaths resolve selectedFiles allFiles fd) \<Longrightarrow>
     d \<in> dependencyCandidates pu selectedFiles allFiles \<and> d \<in> set allFiles"
  by (auto simp: directDependencies_def split: outcome.splits dest: acceptedDependency_candidate)

lemma candidates_same_path:
  assumes "d1 \<in> dependencyCandidates pu selectedFiles allFiles"
    and "d2 \<in> dependencyCandidates pu selectedFiles allFiles" and "path d1 = path d2"
  shows "d1 = d2"
  using assms by (simp add: dependencyCandidates_def)

lemma candidate_not_selected:
  assumes "d \<in> dependencyCandidates pu selectedFiles allFiles" and "s \<in> set selectedFiles"
  shows "path s \<noteq> path d"
proof
  assume "path s = path d"
  then have "arePathsEquivalent pu (path s) (path d)" by (simp add: arePathsEquivalent_def)
  with assms(2) have "list_ex (\<lambda>f. arePathsEquivalent pu (path f) (path d)) selectedFiles"
    by (auto simp: list_ex_iff)
  with assms(1) show False by (simp add: dependencyCandidates_def)
qed

lemma scannedSelection_same_path:
  "s1 \<in> scannedSelection selectedFiles \<Longrightarrow> s2 \<in> scannedSelection selectedFiles \<Longrightarrow>
     path s1 = path s2 \<Longrightarrow> s1 = s2"
  by (simp add: scannedSelection_def)

lemma inj_on_path_nodes:
  "inj_on path (scannedSelection selectedFiles \<union> dependencyCandidates pu selectedFiles allFiles)"
proof (rule inj_onI)
  fix x y
  assume x: "x \<in> scannedSelection selectedFiles \<union> dependencyCandidates pu selectedFiles allFiles"
    and y: "y \<in> scannedSelection selectedFiles \<union> dependencyCandidates pu selectedFiles allFiles"
    and eq: "path x = path y"
  have sel: "s \<in> set selectedFiles" if "s \<in> scannedSelection selectedFiles" for s
    using that by (simp add: scannedSelection_def)
  from x show "x = y"
  proof
    assume xs: "x \<in> scannedSelection selectedFiles"
    from y show ?thesis
    proof
      assume "y \<in> scannedSelection selectedFiles"
      with xs show ?thesis using eq by (rule scannedSelection_same_path)
    next
      assume "y \<in> dependencyCandidates pu selectedFiles allFiles"
      from candidate_not_selected [OF this sel [OF xs]] eq show ?thesis by simp
    qed
  next
    assume xd: "x \<in> dependencyCandidates pu selectedFiles allFiles"
    from y show ?thesis
    proof
      assume "y \<in> scannedSelection selectedFiles"
      from candidate_not_selected [OF xd sel [OF this]] eq show ?thesis by simp
    next
      assume "y \<in> dependencyCandidates pu selectedFiles allFiles"
      with xd show ?thesis using eq by (rule candidates_same_path)
    qed
  qed
qed

lemma mapSet_values:
  assumes "\<forall>(k, v) \<in> set m. k = key v \<and> v \<in> D" and "d \<in> D" and "inj_on key D"
  shows "snd ` set (mapSet (key d) d m) = insert d (snd ` set m) \<and>
         (\<forall>(k, v) \<in> set (mapSet (key d) d m). k = key v \<and> v \<in> D)"
  using assms(1)
proof (induction m)
  case Nil
  with assms(2) show ?case by simp
next
  case (Cons e m)
  obtain k v where e: "e = (k, v)" by (cases e)
  from Cons.prems e have kv: "k = key v" "v \<in> D"
    and rest: "\<forall>(k, v) \<in> set m. k = key v \<and> v \<in> D"
    by simp_all
  show ?case
  proof (cases "k = key d")
    case True
    with kv assms(2,3) have "v = d" by (simp add: inj_on_def)
    with True e rest assms(2) show ?thesis by simp
  next
    case False
    from Cons.IH [OF rest] False e kv show ?thesis by auto
  qed
qed

lemma walkStep_add:
  assumes k: "keyedByPath D w" and d: "d \<in> D" "d \<in> R" and inj: "inj_on path D"
  shows "walkStep D N R succs w (w\<lparr>dependencyFiles := mapSet (path d) d (dependencyFiles w)\<rparr>) \<and>
         d \<in> dependencyValues (w\<lparr>dependencyFiles := mapSet (path d) d (dependencyFiles w)\<rparr>)"
proof -
  from k have "\<forall>(k, v) \<in> set (dependencyFiles w). k = path v \<and> v \<in> D"
    by (simp add: keyedByPath_def)
  from mapSet_values [OF this d(1) inj] d(2) show ?thesis
    by (auto simp: walkStep_def keyedByPath_def dependencyValues_def)
qed

lemma walkStep_keyed: "walkStep D N R succs w w' \<Longrightarrow> keyedByPath D w'"
  by (simp add: walkStep_def)

lemma walkStep_processed: "walkStep D N R succs w w' \<Longrightarrow> processedFiles w \<subseteq> processedFiles w'"
  by (simp add: walkStep_def)

lemma walkStep_values: "walkStep D N R succs w w' \<Longrightarrow> dependencyValues w \<subseteq> dependencyValues w'"
  by (simp add: walkStep_def)

lemma walkStep_sound: "walkStep D N R succs w w' \<Longrightarrow> dependencyValues w' \<subseteq> dependencyValues w \<union> R"
  by (simp add: walkStep_def)

lemma walkStep_closed:
  "walkStep D N R succs w w' \<Longrightarrow> x \<in> N \<Longrightarrow> path x \<in> processedFiles w' \<Longrightarrow>
     path x \<notin> processedFiles w \<Longrightarrow>
     set (succs x) \<subseteq> dependencyValues w' \<and> path ` set (succs x) \<subseteq> processedFiles w'"
  by (simp add: walkStep_def)

lemma visitEach_walkStep:
  assumes recur: "\<And>(d::FileData) w w'. d \<in> R \<Longrightarrow> keyedByPath D w \<Longrightarrow> recur d w = Some w' \<Longrightarrow>
                    walkStep D N R succs w w' \<and> path d \<in> processedFiles w'"
    and RD: "R \<subseteq> D" and inj: "inj_on path D"
  shows "visitEach recur ds w = Some w' \<Longrightarrow> set ds \<subseteq> R \<Longrightarrow> keyedByPath D w \<Longrightarrow>
         walkStep D N R succs w w' \<and> set ds \<subseteq> dependencyValues w' \<and>
         path ` set ds \<subseteq> processedFiles w'"
proof (induction ds arbitrary: w)
  case Nil
  then show ?case by (simp add: walkStep_refl)
next
  case (Cons d ds)
  let ?wa = "w\<lparr>dependencyFiles := mapSet (path d) d (dependencyFiles w)\<rparr>"
  obtain wb where wb: "recur d ?wa = Some wb" "visitEach recur ds wb = Some w'"
  proof (cases "recur d ?wa")
    case None
    with Cons.prems(1) show ?thesis by simp
  next
    case (Some wb)
    with Cons.prems(1) that show ?thesis by simp
  qed
  from Cons.prems(2) have dR: "d \<in> R" and dsR: "set ds \<subseteq> R" by simp_all
  from dR RD have dD: "d \<in> D" by (rule subsetD [rotated])
  note add = walkStep_add [OF Cons.prems(3) dD dR inj, of N succs]
  from add have a1: "walkStep D N R succs w ?wa" by (rule conjunct1)
  from add have a2: "d \<in> dependencyValues ?wa" by (rule conjunct2)
  from a1 have ka: "keyedByPath D ?wa" by (rule walkStep_keyed)
  note rec = recur [OF dR ka wb(1)]
  from rec have b1: "walkStep D N R succs ?wa wb" by (rule conjunct1)
  from rec have b2: "path d \<in> processedFiles wb" by (rule conjunct2)
  from b1 have kb: "keyedByPath D wb" by (rule walkStep_keyed)
  note ih = Cons.IH [OF wb(2) dsR kb]
  from ih have c1: "walkStep D N R succs wb w'" by (rule conjunct1)
  from ih have c2: "set ds \<subseteq> dependencyValues w'" by (elim conjE)
  from ih have c3: "path ` set ds \<subseteq> processedFiles w'" by (elim conjE)
  from a1 b1 have "walkStep D N R succs w wb" by (rule walkStep_trans)
  then have t: "walkStep D N R succs w w'" using c1 by (rule walkStep_trans)
  from a2 walkStep_values [OF b1] walkStep_values [OF c1] have dv: "d \<in> dependencyValues w'"
    by blast
  from b2 walkStep_processed [OF c1] have dp: "path d \<in> processedFiles w'" by blast
  from t dv dp c2 c3 show ?case by simp
qed

lemma dependencyValues_mark:
  "dependencyValues (w\<lparr>processedFiles := P, scanned := l\<rparr>) = dependencyValues w"
  by (simp add: dependencyValues_def)

lemma keyedByPath_mark:
  "keyedByPath D (w\<lparr>processedFiles := P, scanned := l\<rparr>) = keyedByPath D w"
  by (simp add: keyedByPath_def)

lemma visit_walkStep:
  fixes visit :: "nat \<Rightarrow> FileData \<Rightarrow> walker \<Rightarrow> walker option"
  assumes v0: "\<And>fd w. visit 0 fd w = None"
    and vS: "\<And>n fd w. visit (Suc n) fd w =
       (if path fd \<in> processedFiles w then Some w
        else visitEach (visit n) (succs fd)
               (w\<lparr>processedFiles := insert (path fd) (processedFiles w),
                  scanned := scanned w @ [path fd]\<rparr>))"
    and inj: "inj_on path N" and DN: "D \<subseteq> N" and RD: "R \<subseteq> D" and SN: "S \<subseteq> N"
    and succ: "\<And>x. x \<in> S \<union> R \<Longrightarrow> set (succs x) \<subseteq> R"
  shows "visit n fd w = Some w' \<Longrightarrow> keyedByPath D w \<Longrightarrow>
         fd \<in> S \<union> R \<or> path fd \<in> processedFiles w \<Longrightarrow>
         walkStep D N R succs w w' \<and> path fd \<in> processedFiles w'"
proof (induction n arbitrary: fd w w')
  case 0
  then show ?case by (simp add: v0)
next
  case (Suc n)
  show ?case
  proof (cases "path fd \<in> processedFiles w")
    case True
    with Suc.prems(1) have "w' = w" by (simp add: vS)
    with True Suc.prems(2) show ?thesis by (simp add: walkStep_refl)
  next
    case False
    let ?w1 = "w\<lparr>processedFiles := insert (path fd) (processedFiles w),
                  scanned := scanned w @ [path fd]\<rparr>"
    from False Suc.prems(3) have fdR: "fd \<in> S \<union> R" by simp
    from fdR SN RD DN have fdN: "fd \<in> N" by blast
    from False Suc.prems(1) have run: "visitEach (visit n) (succs fd) ?w1 = Some w'"
      by (simp add: vS)
    from Suc.prems(2) have k1: "keyedByPath D ?w1" by (simp add: keyedByPath_mark)
    from inj DN have injD: "inj_on path D" by (rule inj_on_subset)
    have recur: "walkStep D N R succs wa wb \<and> path d \<in> processedFiles wb"
      if "d \<in> R" "keyedByPath D wa" "visit n d wa = Some wb" for d wa wb
    proof -
      from that(1) have "d \<in> S \<union> R \<or> path d \<in> processedFiles wa" by simp
      with that(3,2) show ?thesis by (rule Suc.IH)
    qed
    have ve: "walkStep D N R succs ?w1 w' \<and> set (succs fd) \<subseteq> dependencyValues w' \<and>
         path ` set (succs fd) \<subseteq> processedFiles w'"
    proof (rule visitEach_walkStep [where recur = "visit n" and R = R and D = D])
      show "walkStep D N R succs wa wb \<and> path d \<in> processedFiles wb"
        if "d \<in> R" "keyedByPath D wa" "visit n d wa = Some wb" for d wa wb
        using that by (rule recur)
      show "R \<subseteq> D" by (fact RD)
      show "inj_on path D" by (fact injD)
      show "visitEach (visit n) (succs fd) ?w1 = Some w'" by (fact run)
      show "set (succs fd) \<subseteq> R" using fdR by (rule succ)
      show "keyedByPath D ?w1" by (fact k1)
    qed
    from ve have s1: "walkStep D N R succs ?w1 w'" by (rule conjunct1)
    from ve have sv: "set (succs fd) \<subseteq> dependencyValues w'" by (rule conjunct2 [THEN conjunct1])
    from ve have sp: "path ` set (succs fd) \<subseteq> processedFiles w'" by (rule conjunct2 [THEN conjunct2])
    from walkStep_processed [OF s1] have p: "insert (path fd) (processedFiles w) \<subseteq> processedFiles w'"
      by simp
    from walkStep_values [OF s1] have v: "dependencyValues w \<subseteq> dependencyValues w'"
      by (simp add: dependencyValues_mark)
    from walkStep_sound [OF s1] have r: "dependencyValues w' \<subseteq> dependencyValues w \<union> R"
      by (simp add: dependencyValues_mark)
    have c: "set (succs x) \<subseteq> dependencyValues w' \<and> path ` set (succs x) \<subseteq> processedFiles w'"
      if x: "x \<in> N" "path x \<in> processedFiles w'" "path x \<notin> processedFiles w" for x
    proof (cases "path x = path fd")
      case True
      with inj x(1) fdN have "x = fd" by (simp add: inj_on_def)
      with sv sp show ?thesis by simp
    next
      case False
      with x(3) have "path x \<notin> processedFiles ?w1" by simp
      with s1 x(1,2) show ?thesis by (rule walkStep_closed)
    qed
    from walkStep_keyed [OF s1] p v c r have "walkStep D N R succs w w'"
      by (simp add: walkStep_def)
    with p show ?thesis by simp
  qed
qed

lemma find_first:
  "find P (xs @ y # ys) \<noteq> Some y \<Longrightarrow> P y \<Longrightarrow> \<exists>x \<in> set xs. P x"
  by (induction xs) (auto split: if_splits)

lemma forEachFile_walkStep:
  assumes step: "\<And>(fd::FileData) w w'. f fd w = Some w' \<Longrightarrow> keyedByPath D w \<Longrightarrow>
                   fd \<in> scannedSelection selectedFiles \<union> R \<or> path fd \<in> processedFiles w \<Longrightarrow>
                   walkStep D N R succs w w' \<and> path fd \<in> processedFiles w'"
  shows "forEachFile f files w = Some w' \<Longrightarrow> selectedFiles = before @ files \<Longrightarrow>
         path ` set before \<subseteq> processedFiles w \<Longrightarrow> keyedByPath D w \<Longrightarrow>
         walkStep D N R succs w w' \<and> path ` set selectedFiles \<subseteq> processedFiles w'"
proof (induction files arbitrary: before w)
  case Nil
  then show ?case by (simp add: walkStep_refl)
next
  case (Cons fd files)
  obtain w1 where w1: "f fd w = Some w1" "forEachFile f files w1 = Some w'"
  proof (cases "f fd w")
    case None
    with Cons.prems(1) show ?thesis by simp
  next
    case (Some w1)
    with Cons.prems(1) that show ?thesis by simp
  qed
  have "fd \<in> scannedSelection selectedFiles \<union> R \<or> path fd \<in> processedFiles w"
  proof (cases "find (\<lambda>f. path f = path fd) selectedFiles = Some fd")
    case True
    with Cons.prems(2) show ?thesis by (simp add: scannedSelection_def)
  next
    case False
    with Cons.prems(2) have "find (\<lambda>f. path f = path fd) (before @ fd # files) \<noteq> Some fd"
      by simp
    then have "\<exists>x \<in> set before. path x = path fd" by (rule find_first) simp
    with Cons.prems(3) show ?thesis by auto
  qed
  note st = step [OF w1(1) Cons.prems(4) this]
  from st have s1: "walkStep D N R succs w w1" by (rule conjunct1)
  from st have p1: "path fd \<in> processedFiles w1" by (rule conjunct2)
  from Cons.prems(2) have sel: "selectedFiles = (before @ [fd]) @ files" by simp
  from Cons.prems(3) walkStep_processed [OF s1] p1
  have pre: "path ` set (before @ [fd]) \<subseteq> processedFiles w1" by auto
  note ih = Cons.IH [OF w1(2) sel pre walkStep_keyed [OF s1]]
  from ih have "walkStep D N R succs w1 w'" by (rule conjunct1)
  with s1 have "walkStep D N R succs w w'" by (rule walkStep_trans)
  with ih show ?case by simp
qed

text \<open>The walk returns, whatever the two calls raise.\<close>

lemma visitEach_total:
  assumes recur: "\<And>(d::FileData) w. d \<in> A \<Longrightarrow> S \<subseteq> processedFiles w \<Longrightarrow>
                    \<exists>w'. recur d w = Some w' \<and> S \<subseteq> processedFiles w'"
  shows "set ds \<subseteq> A \<Longrightarrow> S \<subseteq> processedFiles w \<Longrightarrow>
         \<exists>w'. visitEach recur ds w = Some w' \<and> S \<subseteq> processedFiles w'"
proof (induction ds arbitrary: w)
  case Nil
  then show ?case by simp
next
  case (Cons d ds)
  let ?wa = "w\<lparr>dependencyFiles := mapSet (path d) d (dependencyFiles w)\<rparr>"
  from Cons.prems(1) have dA: "d \<in> A" and dsA: "set ds \<subseteq> A" by simp_all
  from Cons.prems(2) have "S \<subseteq> processedFiles ?wa" by simp
  from recur [OF dA this] obtain wb where wb: "recur d ?wa = Some wb" "S \<subseteq> processedFiles wb"
    by blast
  from Cons.IH [OF dsA wb(2)] obtain w' where
    "visitEach recur ds wb = Some w'" "S \<subseteq> processedFiles w'"
    by blast
  with wb(1) show ?case by simp
qed

lemma processFileWith_total:
  assumes ex: "\<And>fd. extractPaths fd \<noteq> Diverge"
    and re: "\<And>importPath fd. resolve importPath fd \<noteq> Diverge"
  shows "card (insert (path fd) (path ` set allFiles) - processedFiles w) < depth \<Longrightarrow>
     \<exists>w'. processFileWith pu extractPaths resolve selectedFiles allFiles depth fd w = Some w' \<and>
          processedFiles w \<subseteq> processedFiles w'"
proof (induction depth arbitrary: fd w)
  case 0
  then show ?case by simp
next
  case (Suc depth)
  have unroll: "processFileWith pu extractPaths resolve selectedFiles allFiles (Suc depth) fd w =
     (if path fd \<in> processedFiles w then Some w
      else visitEach (processFileWith pu extractPaths resolve selectedFiles allFiles depth)
             (directDependencies pu extractPaths resolve selectedFiles allFiles fd)
             (w\<lparr>processedFiles := insert (path fd) (processedFiles w),
                scanned := scanned w @ [path fd]\<rparr>))"
    using ex re by (rule processFileWith_Suc)
  show ?case
  proof (cases "path fd \<in> processedFiles w")
    case True
    then show ?thesis by (simp add: unroll del: processFileWith.simps)
  next
    case False
    let ?w1 = "w\<lparr>processedFiles := insert (path fd) (processedFiles w),
                  scanned := scanned w @ [path fd]\<rparr>"
    let ?S = "insert (path fd) (processedFiles w)"
    have recur: "\<exists>w'. processFileWith pu extractPaths resolve selectedFiles allFiles depth dep w2 = Some w' \<and>
                  ?S \<subseteq> processedFiles w'"
      if dep: "dep \<in> set allFiles" and sub: "?S \<subseteq> processedFiles w2" for dep :: FileData and w2
    proof -
      have "insert (path dep) (path ` set allFiles) - processedFiles w2
              \<subset> insert (path fd) (path ` set allFiles) - processedFiles w"
        using dep sub False by auto
      then have "card (insert (path dep) (path ` set allFiles) - processedFiles w2)
              < card (insert (path fd) (path ` set allFiles) - processedFiles w)"
        by (intro psubset_card_mono) auto
      with Suc.prems have "card (insert (path dep) (path ` set allFiles) - processedFiles w2) < depth"
        by simp
      from Suc.IH [OF this] sub show ?thesis by blast
    qed
    have sub: "set (directDependencies pu extractPaths resolve selectedFiles allFiles fd) \<subseteq> set allFiles"
      using directDependencies_candidates by blast
    have "?S \<subseteq> processedFiles ?w1" by simp
    with sub have "\<exists>w'. visitEach (processFileWith pu extractPaths resolve selectedFiles allFiles depth)
           (directDependencies pu extractPaths resolve selectedFiles allFiles fd) ?w1 = Some w' \<and>
           ?S \<subseteq> processedFiles w'"
      by (rule visitEach_total [where A = "set allFiles", rotated]) (rule recur)
    with False show ?thesis by (auto simp add: unroll simp del: processFileWith.simps)
  qed
qed

lemma walkWith_total:
  assumes ex: "\<And>fd. extractPaths fd \<noteq> Diverge"
    and re: "\<And>importPath fd. resolve importPath fd \<noteq> Diverge"
    and le: "length allFiles + 2 \<le> depth"
  shows "\<exists>w. walkWith pu extractPaths resolve depth selectedFiles allFiles = Some w"
proof -
  have "\<exists>w'. processFileWith pu extractPaths resolve selectedFiles allFiles depth fd w = Some w'"
    for fd :: FileData and w
  proof -
    from card_unprocessed_bound [of fd allFiles w] le
    have "card (insert (path fd) (path ` set allFiles) - processedFiles w) < depth" by simp
    from processFileWith_total [of extractPaths resolve, OF ex re this] show ?thesis by blast
  qed
  then show ?thesis
    unfolding walkWith_def by (rule forEachFile_total)
qed

text \<open>
  At the end of the walk the values of the map are the files that a chain of imports
  reaches from a scanned selected file, and all of them are marked as processed.
\<close>

lemma reachable_candidates:
  "reachableDependencies pu extractPaths resolve selectedFiles allFiles
     \<subseteq> dependencyCandidates pu selectedFiles allFiles"
proof
  fix d assume "d \<in> reachableDependencies pu extractPaths resolve selectedFiles allFiles"
  then obtain s where "(s, d) \<in> (importEdges pu extractPaths resolve selectedFiles allFiles)\<^sup>+"
    by (auto simp: reachableDependencies_def)
  then obtain x where "(x, d) \<in> importEdges pu extractPaths resolve selectedFiles allFiles"
    by (auto dest: tranclD2)
  then have "d \<in> set (directDependencies pu extractPaths resolve selectedFiles allFiles x)"
    by (simp add: importEdges_def)
  then show "d \<in> dependencyCandidates pu selectedFiles allFiles"
    by (simp add: directDependencies_candidates)
qed

lemma reachable_successors:
  assumes "x \<in> scannedSelection selectedFiles \<union>
               reachableDependencies pu extractPaths resolve selectedFiles allFiles"
  shows "set (directDependencies pu extractPaths resolve selectedFiles allFiles x)
           \<subseteq> reachableDependencies pu extractPaths resolve selectedFiles allFiles"
proof
  fix d assume "d \<in> set (directDependencies pu extractPaths resolve selectedFiles allFiles x)"
  then have e: "(x, d) \<in> importEdges pu extractPaths resolve selectedFiles allFiles"
    by (simp add: importEdges_def)
  from assms show "d \<in> reachableDependencies pu extractPaths resolve selectedFiles allFiles"
  proof
    assume "x \<in> scannedSelection selectedFiles"
    with e show ?thesis by (auto simp: reachableDependencies_def)
  next
    assume "x \<in> reachableDependencies pu extractPaths resolve selectedFiles allFiles"
    then obtain s where s: "s \<in> scannedSelection selectedFiles"
      "(s, x) \<in> (importEdges pu extractPaths resolve selectedFiles allFiles)\<^sup>+"
      by (auto simp: reachableDependencies_def)
    from s(2) e have "(s, d) \<in> (importEdges pu extractPaths resolve selectedFiles allFiles)\<^sup>+"
      by (rule trancl_into_trancl)
    with s(1) show ?thesis by (auto simp: reachableDependencies_def)
  qed
qed

lemma walkWith_walkStep:
  assumes ex: "\<And>fd. extractPaths fd \<noteq> Diverge"
    and re: "\<And>importPath fd. resolve importPath fd \<noteq> Diverge"
    and run: "walkWith pu extractPaths resolve depth selectedFiles allFiles = Some w"
  shows "walkStep (dependencyCandidates pu selectedFiles allFiles)
           (scannedSelection selectedFiles \<union> dependencyCandidates pu selectedFiles allFiles)
           (reachableDependencies pu extractPaths resolve selectedFiles allFiles)
           (directDependencies pu extractPaths resolve selectedFiles allFiles) emptyWalker w \<and>
         path ` set selectedFiles \<subseteq> processedFiles w"
proof -
  let ?D = "dependencyCandidates pu selectedFiles allFiles"
  let ?S = "scannedSelection selectedFiles"
  let ?R = "reachableDependencies pu extractPaths resolve selectedFiles allFiles"
  let ?succs = "directDependencies pu extractPaths resolve selectedFiles allFiles"
  let ?visit = "processFileWith pu extractPaths resolve selectedFiles allFiles"
  have step: "walkStep ?D (?S \<union> ?D) ?R ?succs wa wb \<and> path fd \<in> processedFiles wb"
    if "?visit depth fd wa = Some wb" "keyedByPath ?D wa"
       "fd \<in> ?S \<union> ?R \<or> path fd \<in> processedFiles wa" for fd wa wb
  proof (rule visit_walkStep [where visit = ?visit and S = ?S and n = depth])
    show "?visit 0 fd w = None" for fd w by simp
    show "?visit (Suc n) fd w =
       (if path fd \<in> processedFiles w then Some w
        else visitEach (?visit n) (?succs fd)
               (w\<lparr>processedFiles := insert (path fd) (processedFiles w),
                  scanned := scanned w @ [path fd]\<rparr>))" for n fd w
      using ex re by (rule processFileWith_Suc)
    show "inj_on path (?S \<union> ?D)" by (rule inj_on_path_nodes)
    show "?D \<subseteq> ?S \<union> ?D" by simp
    show "?R \<subseteq> ?D" by (rule reachable_candidates)
    show "?S \<subseteq> ?S \<union> ?D" by simp
    show "set (?succs x) \<subseteq> ?R" if "x \<in> ?S \<union> ?R" for x
      using that by (rule reachable_successors)
    show "?visit depth fd wa = Some wb" by (fact that(1))
    show "keyedByPath ?D wa" by (fact that(2))
    show "fd \<in> ?S \<union> ?R \<or> path fd \<in> processedFiles wa" by (fact that(3))
  qed
  have k0: "keyedByPath ?D emptyWalker" by (simp add: keyedByPath_def emptyWalker_def)
  have b0: "path ` set ([]::FileData list) \<subseteq> processedFiles emptyWalker" by simp
  have s0: "selectedFiles = [] @ selectedFiles" by simp
  from run have r0: "forEachFile (?visit depth) selectedFiles emptyWalker = Some w"
    by (simp add: walkWith_def)
  show ?thesis
  proof (rule forEachFile_walkStep [where f = "?visit depth" and before = "[]"
        and files = selectedFiles])
    show "walkStep ?D (?S \<union> ?D) ?R ?succs wa wb \<and> path fd \<in> processedFiles wb"
      if "?visit depth fd wa = Some wb" "keyedByPath ?D wa"
         "fd \<in> ?S \<union> ?R \<or> path fd \<in> processedFiles wa" for fd wa wb
      using that by (rule step)
    show "forEachFile (?visit depth) selectedFiles emptyWalker = Some w" by (fact r0)
    show "selectedFiles = [] @ selectedFiles" by simp
    show "path ` set ([]::FileData list) \<subseteq> processedFiles emptyWalker" by simp
    show "keyedByPath ?D emptyWalker" by (fact k0)
  qed
qed

lemma walkWith_reachable:
  assumes ex: "\<And>fd. extractPaths fd \<noteq> Diverge"
    and re: "\<And>importPath fd. resolve importPath fd \<noteq> Diverge"
    and run: "walkWith pu extractPaths resolve depth selectedFiles allFiles = Some w"
  shows "dependencyValues w = reachableDependencies pu extractPaths resolve selectedFiles allFiles \<and>
         path ` set selectedFiles \<union>
           path ` reachableDependencies pu extractPaths resolve selectedFiles allFiles
           \<subseteq> processedFiles w"
proof -
  let ?D = "dependencyCandidates pu selectedFiles allFiles"
  let ?S = "scannedSelection selectedFiles"
  let ?R = "reachableDependencies pu extractPaths resolve selectedFiles allFiles"
  let ?succs = "directDependencies pu extractPaths resolve selectedFiles allFiles"
  let ?E = "importEdges pu extractPaths resolve selectedFiles allFiles"
  note ws = walkWith_walkStep [of extractPaths resolve, OF ex re run]
  from ws have step: "walkStep ?D (?S \<union> ?D) ?R ?succs emptyWalker w" by (rule conjunct1)
  from ws have sel: "path ` set selectedFiles \<subseteq> processedFiles w" by (rule conjunct2)
  have closed: "set (?succs x) \<subseteq> dependencyValues w \<and> path ` set (?succs x) \<subseteq> processedFiles w"
    if "x \<in> ?S \<union> ?D" "path x \<in> processedFiles w" for x
  proof -
    have "path x \<notin> processedFiles emptyWalker" by (simp add: emptyWalker_def)
    with step that show ?thesis by (rule walkStep_closed)
  qed
  have found: "d \<in> dependencyValues w \<and> path d \<in> processedFiles w"
    if s: "s \<in> ?S" and d: "(s, d) \<in> ?E\<^sup>+" for s d
    using d
  proof (induction rule: trancl_induct)
    case (base y)
    from s have "s \<in> set selectedFiles" by (simp add: scannedSelection_def)
    with sel have "path s \<in> processedFiles w" by blast
    with s closed [of s] have "set (?succs s) \<subseteq> dependencyValues w \<and>
        path ` set (?succs s) \<subseteq> processedFiles w" by simp
    moreover from base have "y \<in> set (?succs s)" by (simp add: importEdges_def)
    ultimately show ?case by blast
  next
    case (step y z)
    from s step.hyps(1) have "y \<in> ?R" by (auto simp: reachableDependencies_def)
    with reachable_candidates have "y \<in> ?D" by blast
    with step.IH closed [of y] have "set (?succs y) \<subseteq> dependencyValues w \<and>
        path ` set (?succs y) \<subseteq> processedFiles w" by simp
    moreover from step.hyps(2) have "z \<in> set (?succs y)" by (simp add: importEdges_def)
    ultimately show ?case by blast
  qed
  from walkStep_sound [OF step] have "dependencyValues w \<subseteq> ?R"
    by (simp add: dependencyValues_def emptyWalker_def)
  moreover have "?R \<subseteq> dependencyValues w"
    using found by (auto simp: reachableDependencies_def)
  moreover have "path ` ?R \<subseteq> processedFiles w"
    using found by (auto simp: reachableDependencies_def)
  ultimately show ?thesis using sel by blast
qed


section \<open>Properties of the resolver\<close>

text \<open>
  \<^verbatim>\<open>s.split('.').pop()\<close> is the text after the last \<^verbatim>\<open>.\<close>, and the whole string when it
  has none.
\<close>

lemma split_not_Nil: "split sep s \<noteq> []"
  by (induction s) (auto split: list.splits)

lemma split_without_separator: "sep \<notin> set s \<Longrightarrow> split sep s = [s]"
  by (induction s) auto

lemma length_split: "length (split sep s) = Suc (length (filter (\<lambda>c. c = sep) s))"
  by (induction s) (auto split: list.splits simp: split_not_Nil)

lemma last_split_after_separator:
  "sep \<notin> set b \<Longrightarrow> last (split sep (a @ sep # b)) = b"
proof (induction a)
  case Nil
  then show ?case by (simp add: split_not_Nil split_without_separator)
next
  case (Cons c a)
  show ?case
  proof (cases "c = sep")
    case True
    with Cons show ?thesis by (simp add: split_not_Nil)
  next
    case False
    obtain x xs where x: "split sep (a @ sep # b) = x # xs"
      using split_not_Nil [of sep "a @ sep # b"] by (cases "split sep (a @ sep # b)") auto
    have "length (split sep (a @ sep # b)) \<ge> 2"
      by (simp add: length_split)
    with x have "xs \<noteq> []" by auto
    with Cons x False show ?thesis by simp
  qed
qed

lemma toLowerChar_dot: "toLowerChar CHR ''.'' = CHR ''.''"
  by (simp add: toLowerChar_def)

lemma extensionOf_recognized:
  assumes "extensionOf importPath = Some e"
  shows "endsWith (toLowerCase importPath) (''.'' @ e) \<or> toLowerCase importPath = e"
proof (cases "CHR ''.'' \<in> set importPath")
  case False
  with assms show ?thesis
    by (simp add: extensionOf_def pop_def split_without_separator)
next
  case True
  then obtain a b where ab: "importPath = a @ CHR ''.'' # b" "CHR ''.'' \<notin> set b"
    by (auto dest: split_list_last)
  with assms have "e = toLowerCase b"
    by (auto simp: extensionOf_def pop_def split_not_Nil last_split_after_separator)
  with ab(1) have "toLowerCase importPath = toLowerCase a @ ''.'' @ e"
    by (simp add: toLowerCase_def toLowerChar_dot)
  then show ?thesis by (simp add: endsWith_def)
qed

lemma tryExtensions_concat:
  "tryExtensions pu base allFiles exts acc =
     acc @ concat (map (\<lambda>ext. findMatchingFiles pu (base @ ext) allFiles) exts)"
  by (induction exts arbitrary: acc) simp_all

lemma resolveImportPath_not_absolute:
  assumes "\<not> startsWith importPath ''/''"
  shows "resolveImportPath pu importPath currentFilePath allFiles projectRoot =
     (let found = concat (map (\<lambda>ext. findMatchingFiles pu
                                 (importBase pu importPath currentFilePath @ ext) allFiles)
                            (getFileExtensions importPath))
      in if found = [] then findMatchingFiles pu (importBase pu importPath currentFilePath) allFiles
         else found)"
  using assms
  by (simp add: resolveImportPath_def importBase_def tryExtensions_concat Let_def)

lemma getFileExtensions_unrecognized:
  assumes "extensionOf importPath \<notin> Some ` set recognizedExtensions"
  shows "getFileExtensions importPath =
      [''.js'', ''.ts'', ''.jsx'', ''.tsx'', ''.py'', ''.css'', ''.scss'', ''.sass'']"
  using assms
  by (auto simp: getFileExtensions_def FILE_EXTENSIONS_default_def split: option.splits)

lemma findMatchingFiles_exact:
  "file \<in> set allFiles \<Longrightarrow> path file = targetPath \<Longrightarrow>
     path file \<in> set (findMatchingFiles pu targetPath allFiles)"
  by (induction allFiles) (auto simp: arePathsEquivalent_def)

text \<open>
  C1, as the code has it. For an import string that is not root-absolute, that does not
  end, in lower case, in \<^verbatim>\<open>.\<close> followed by one of js, jsx, ts, tsx, mjs, cjs, py, css, scss,
  sass, and that is not one of these ten words itself, \<^verbatim>\<open>getFileExtensions\<close> returns the
  list \<^verbatim>\<open>['.js','.ts','.jsx','.tsx','.py','.css','.scss','.sass']\<close> (without \<^verbatim>\<open>.mjs\<close> and
  \<^verbatim>\<open>.cjs\<close>), and \<^verbatim>\<open>resolveImportPath\<close> tries every element of it in this order: its result
  is the concatenation of the matches of all eight candidates, and the bare path is
  tried only when that concatenation is empty.
\<close>

theorem getFileExtensions_default_all_tried:
  assumes "\<not> list_ex (\<lambda>e. endsWith (toLowerCase importPath) (''.'' @ e)) recognizedExtensions"
    and "toLowerCase importPath \<notin> set recognizedExtensions"
    and "\<not> startsWith importPath ''/''"
  shows "getFileExtensions importPath =
           [''.js'', ''.ts'', ''.jsx'', ''.tsx'', ''.py'', ''.css'', ''.scss'', ''.sass''] \<and>
         resolveImportPath pu importPath currentFilePath allFiles projectRoot =
           (let found = concat (map (\<lambda>ext. findMatchingFiles pu
                                       (importBase pu importPath currentFilePath @ ext) allFiles)
                            [''.js'', ''.ts'', ''.jsx'', ''.tsx'', ''.py'', ''.css'', ''.scss'', ''.sass''])
            in if found = []
                 then findMatchingFiles pu (importBase pu importPath currentFilePath) allFiles
               else found)"
proof -
  have "extensionOf importPath \<notin> Some ` set recognizedExtensions"
  proof
    assume "extensionOf importPath \<in> Some ` set recognizedExtensions"
    then obtain e where e: "e \<in> set recognizedExtensions" "extensionOf importPath = Some e"
      by auto
    from extensionOf_recognized [OF e(2)] e(1) assms(1,2) show False
      by (auto simp: list_ex_iff)
  qed
  then have exts: "getFileExtensions importPath =
      [''.js'', ''.ts'', ''.jsx'', ''.tsx'', ''.py'', ''.css'', ''.scss'', ''.sass'']"
    by (rule getFileExtensions_unrecognized)
  from resolveImportPath_not_absolute [OF assms(3)] exts show ?thesis
    by simp
qed

theorem getFileExtensions_default_all_tried_witness:
  "\<not> list_ex (\<lambda>e. endsWith (toLowerCase ''./utils/helper'') (''.'' @ e)) recognizedExtensions \<and>
   toLowerCase ''./utils/helper'' \<notin> set recognizedExtensions \<and>
   \<not> startsWith ''./utils/helper'' ''/'' \<and>
   getFileExtensions ''./utils/helper'' =
     [''.js'', ''.ts'', ''.jsx'', ''.tsx'', ''.py'', ''.css'', ''.scss'', ''.sass''] \<and>
   resolveImportPath pathUtilsModel ''./utils/helper'' ''/p/src/App.ts''
       [sourceFile ''/p/src/utils/helper.ts'' [], sourceFile ''/p/src/utils/helper.js'' []] ''/p'' =
     [''/p/src/utils/helper.js'', ''/p/src/utils/helper.ts'']"
proof -
  have h1: "\<not> list_ex (\<lambda>e. endsWith (toLowerCase ''./utils/helper'') (''.'' @ e)) recognizedExtensions"
    by code_simp
  have h2: "toLowerCase ''./utils/helper'' \<notin> set recognizedExtensions"
    by code_simp
  have h3: "\<not> startsWith ''./utils/helper'' ''/''"
    by code_simp
  have ev: "(let found = concat (map (\<lambda>ext. findMatchingFiles pathUtilsModel
                  (importBase pathUtilsModel ''./utils/helper'' ''/p/src/App.ts'' @ ext)
                  [sourceFile ''/p/src/utils/helper.ts'' [], sourceFile ''/p/src/utils/helper.js'' []])
                [''.js'', ''.ts'', ''.jsx'', ''.tsx'', ''.py'', ''.css'', ''.scss'', ''.sass''])
         in if found = []
              then findMatchingFiles pathUtilsModel
                     (importBase pathUtilsModel ''./utils/helper'' ''/p/src/App.ts'')
                     [sourceFile ''/p/src/utils/helper.ts'' [], sourceFile ''/p/src/utils/helper.js'' []]
            else found) = [''/p/src/utils/helper.js'', ''/p/src/utils/helper.ts'']"
    by code_simp
  note t = getFileExtensions_default_all_tried [OF h1 h2 h3, of pathUtilsModel "''/p/src/App.ts''"
      "[sourceFile ''/p/src/utils/helper.ts'' [], sourceFile ''/p/src/utils/helper.js'' []]" "''/p''"]
  from t have a: "getFileExtensions ''./utils/helper'' =
     [''.js'', ''.ts'', ''.jsx'', ''.tsx'', ''.py'', ''.css'', ''.scss'', ''.sass'']"
    by (rule conjunct1)
  from t [THEN conjunct2] ev
  have b: "resolveImportPath pathUtilsModel ''./utils/helper'' ''/p/src/App.ts''
       [sourceFile ''/p/src/utils/helper.ts'' [], sourceFile ''/p/src/utils/helper.js'' []] ''/p'' =
     [''/p/src/utils/helper.js'', ''/p/src/utils/helper.ts'']"
    by (rule trans)
  show ?thesis
    by (intro conjI) (fact h1, fact h2, fact h3, fact a, fact b)
qed

text \<open>
  The list of C1 as the spec gives it, with \<^verbatim>\<open>.mjs\<close> and \<^verbatim>\<open>.cjs\<close>, is not what the code
  tries for \<^verbatim>\<open>./utils/helper\<close>.
\<close>

theorem getFileExtensions_spec_list_counterexample:
  "getFileExtensions ''./utils/helper'' \<noteq>
     [''.js'', ''.ts'', ''.jsx'', ''.tsx'', ''.mjs'', ''.cjs'', ''.py'', ''.css'', ''.scss'', ''.sass'']"
  by code_simp


lemma getFileExtensions_utils_helper:
  "getFileExtensions ''./utils/helper'' =
     [''.js'', ''.ts'', ''.jsx'', ''.tsx'', ''.py'', ''.css'', ''.scss'', ''.sass'']"
  by code_simp

text \<open>
  C7. When the candidate files contain both \<^verbatim>\<open>utils/helper.ts\<close> and \<^verbatim>\<open>utils/helper.js\<close>
  below the directory of the importing file, \<^verbatim>\<open>resolveImportPath\<close> of \<^verbatim>\<open>'./utils/helper'\<close>
  returns both paths.
\<close>

theorem resolveImportPath_both_extensions:
  assumes "tsFile \<in> set allFiles" and "jsFile \<in> set allFiles"
    and "path tsFile = resolvePath pu (dirname pu currentFilePath) ''./utils/helper'' @ ''.ts''"
    and "path jsFile = resolvePath pu (dirname pu currentFilePath) ''./utils/helper'' @ ''.js''"
  shows "path tsFile \<in> set (resolveImportPath pu ''./utils/helper'' currentFilePath allFiles projectRoot) \<and>
         path jsFile \<in> set (resolveImportPath pu ''./utils/helper'' currentFilePath allFiles projectRoot)"
proof -
  let ?base = "importBase pu ''./utils/helper'' currentFilePath"
  let ?found = "concat (map (\<lambda>ext. findMatchingFiles pu (?base @ ext) allFiles)
                  (getFileExtensions ''./utils/helper''))"
  have base: "?base = resolvePath pu (dirname pu currentFilePath) ''./utils/helper''"
    by (simp add: importBase_def startsWith_def)
  have ts: "path tsFile \<in> set (findMatchingFiles pu (?base @ ''.ts'') allFiles)"
    using findMatchingFiles_exact [OF assms(1) assms(3), of pu] assms(3) base by simp
  have js: "path jsFile \<in> set (findMatchingFiles pu (?base @ ''.js'') allFiles)"
    using findMatchingFiles_exact [OF assms(2) assms(4), of pu] assms(4) base by simp
  from ts js have mem: "path tsFile \<in> set ?found \<and> path jsFile \<in> set ?found"
    by (simp add: getFileExtensions_utils_helper)
  then have "?found \<noteq> []" by (metis list.set(1) empty_iff)
  moreover have "\<not> startsWith ''./utils/helper'' ''/''"
    by (simp add: startsWith_def)
  ultimately have "resolveImportPath pu ''./utils/helper'' currentFilePath allFiles projectRoot = ?found"
    by (auto simp: resolveImportPath_not_absolute Let_def)
  with mem show ?thesis by simp
qed

theorem resolveImportPath_both_extensions_witness:
  "set (resolveImportPath pathUtilsModel ''./utils/helper'' ''/p/src/components/App.ts''
      [sourceFile ''/p/src/components/App.ts'' [],
       sourceFile ''/p/src/components/utils/helper.ts'' [],
       sourceFile ''/p/src/components/utils/helper.js'' []] ''/p'') =
   {''/p/src/components/utils/helper.ts'', ''/p/src/components/utils/helper.js''}"
proof -
  let ?ts = "sourceFile ''/p/src/components/utils/helper.ts'' []"
  let ?js = "sourceFile ''/p/src/components/utils/helper.js'' []"
  let ?all = "[sourceFile ''/p/src/components/App.ts'' [], ?ts, ?js]"
  have h1: "?ts \<in> set ?all" and h2: "?js \<in> set ?all" by simp_all
  have h3: "path ?ts = resolvePath pathUtilsModel (dirname pathUtilsModel ''/p/src/components/App.ts'')
              ''./utils/helper'' @ ''.ts''"
    by code_simp
  have h4: "path ?js = resolvePath pathUtilsModel (dirname pathUtilsModel ''/p/src/components/App.ts'')
              ''./utils/helper'' @ ''.js''"
    by code_simp
  have sub: "set (resolveImportPath pathUtilsModel ''./utils/helper'' ''/p/src/components/App.ts''
      ?all ''/p'') \<subseteq> {''/p/src/components/utils/helper.ts'', ''/p/src/components/utils/helper.js''}"
    by code_simp
  from resolveImportPath_both_extensions [OF h1 h2 h3 h4, of "''/p''"] sub
  show ?thesis by (auto simp: sourceFile_def)
qed

text \<open>
  The index clauses of \<^verbatim>\<open>findMatchingFiles\<close> ask for a \<^verbatim>\<open>/\<close> before the target: a file whose
  normalized path is the normalized target followed by \<^verbatim>\<open>/index.ts\<close> is one character too
  short for them, and there is no clause \<^verbatim>\<open>normalizedFile === normalizedTarget + '/index.ts'\<close>
  beside \<^verbatim>\<open>normalizedFile === normalizedTarget\<close>.
\<close>

lemma index_clause_needs_longer_file:
  "\<not> endsWith (normalizedTarget @ indexFile) (''/'' @ normalizedTarget @ indexFile)"
  by (simp add: endsWith_def)

text \<open>
  C2 at a concrete input: \<^verbatim>\<open>/p/src/App.ts\<close> imports \<^verbatim>\<open>'./components'\<close>, the candidate set
  holds \<^verbatim>\<open>/p/src/components/index.ts\<close> and no \<^verbatim>\<open>components.*\<close> file, and
  \<^verbatim>\<open>resolveImportPath\<close> returns nothing.
\<close>

theorem index_fallback_relative_import_finds_nothing:
  "resolveImportPath pathUtilsModel ''./components'' ''/p/src/App.ts''
     [sourceFile ''/p/src/App.ts'' [], sourceFile ''/p/src/components/index.ts'' []] ''/p'' = []"
  by code_simp


section \<open>Properties of the walker\<close>

text \<open>
  The repository's test of \<^verbatim>\<open>getDependencyFiles\<close>, on the model of the path utilities: from
  the selection of \<^verbatim>\<open>App.ts\<close> the walk returns the helper and the constants file, and not
  \<^verbatim>\<open>index.ts\<close>.
\<close>

lemma repository_test_relative_imports:
  "map_option (map path)
     (getDependencyFiles pathUtilsModel [testApp] [testApp, testHelper, testConstants, testIndex]
        ''C:/project'') =
   Some [''C:/project/src/components/utils/helper.ts'', ''C:/project/src/shared/constants.ts'']"
  by code_simp

lemma arePathsEquivalent_refl: "arePathsEquivalent pu p p"
  by (simp add: arePathsEquivalent_def)

lemma two_file_cycle:
  fixes a b :: FileData
  assumes ea: "extractLocalImportPaths (content a) (path a) = Return [ia]"
    and eb: "extractLocalImportPaths (content b) (path b) = Return [ib]"
    and ra: "resolveImportPath pu ia (path a) allFiles root = [pb]"
    and fb: "find (\<lambda>f. arePathsEquivalent pu (path f) pb) allFiles = Some b"
    and rb: "resolveImportPath pu ib (path b) allFiles root = [pa]"
    and fa: "find (\<lambda>f. arePathsEquivalent pu (path f) pa) allFiles = Some a"
    and ne: "\<not> arePathsEquivalent pu (path a) (path b)"
  shows "walk pu (Suc (Suc n)) [a] allFiles root =
           Some \<lparr>dependencyFiles = [(path b, b)], processedFiles = {path b, path a},
                 scanned = [path a, path b]\<rparr>"
proof -
  from ne have neq: "path a \<noteq> path b" "path b \<noteq> path a"
    using arePathsEquivalent_refl [of pu "path a"] by auto
  show ?thesis
    using assms neq
    by (simp add: walk_def emptyWalker_def Let_def arePathsEquivalent_refl)
qed

lemma extract_undefined_content:
  assumes "extensionOf filePath \<in> Some ` {''js'', ''jsx'', ''ts'', ''tsx'', ''py'', ''css'', ''scss'', ''sass''}"
  shows "extractLocalImportPaths None filePath = Throw TypeError"
  using assms
  by (auto simp: extractLocalImportPaths_def parseFileImports_def parseJavaScriptImports_def
      parsePythonImports_def parseCSSImports_def Let_def)

lemma selection_example:
  "getDependencyFiles pathUtilsModel [cycleA, cycleBC] [cycleA, cycleBC, leafC] ''/p'' = Some [leafC]"
  by code_simp

text \<open>
  C3. \<^verbatim>\<open>getDependencyFiles\<close> returns, and no file of its result has a path equivalent
  (\<^verbatim>\<open>arePathsEquivalent\<close>: equal after normalization, with \<^verbatim>\<open>/\<close> for \<^verbatim>\<open>\\<close> and in lower case) to
  the path of a selected file.
\<close>

theorem getDependencyFiles_excludes_selection:
  "\<exists>deps. getDependencyFiles pu selectedFiles allFiles root = Some deps \<and>
     (\<forall>d \<in> set deps. \<forall>f \<in> set selectedFiles. \<not> arePathsEquivalent pu (path f) (path d))"
proof -
  obtain w where w: "walk pu (length allFiles + 2) selectedFiles allFiles root = Some w"
    using walk_total [of allFiles "length allFiles + 2"] by blast
  from walk_dependency_invariant [OF w]
  have "\<forall>d \<in> set (map snd (dependencyFiles w)). \<forall>f \<in> set selectedFiles.
          \<not> arePathsEquivalent pu (path f) (path d)"
    by (fastforce simp: list_ex_iff)
  with w show ?thesis by (simp add: getDependencyFiles_def)
qed

theorem getDependencyFiles_excludes_selection_witness:
  "getDependencyFiles pathUtilsModel [cycleA, cycleBC] [cycleA, cycleBC, leafC] ''/p'' = Some [leafC] \<and>
   \<not> arePathsEquivalent pathUtilsModel (path cycleA) (path leafC) \<and>
   \<not> arePathsEquivalent pathUtilsModel (path cycleBC) (path leafC)"
  using getDependencyFiles_excludes_selection
    [of pathUtilsModel "[cycleA, cycleBC]" "[cycleA, cycleBC, leafC]" "''/p''"]
  by (simp add: selection_example)

lemma cycle_example_extract:
  "extractLocalImportPaths (content cycleA) (path cycleA) = Return [''./b'']"
  "extractLocalImportPaths (content cycleB) (path cycleB) = Return [''./a'']"
  by code_simp+

lemma cycle_example_resolve:
  "resolveImportPath pathUtilsModel ''./b'' (path cycleA) [cycleA, cycleB] ''/p'' = [''/p/b.ts'']"
  "resolveImportPath pathUtilsModel ''./a'' (path cycleB) [cycleA, cycleB] ''/p'' = [''/p/a.ts'']"
  by code_simp+

lemma cycle_example_find:
  "find (\<lambda>f. arePathsEquivalent pathUtilsModel (path f) ''/p/b.ts'') [cycleA, cycleB] = Some cycleB"
  "find (\<lambda>f. arePathsEquivalent pathUtilsModel (path f) ''/p/a.ts'') [cycleA, cycleB] = Some cycleA"
  "\<not> arePathsEquivalent pathUtilsModel (path cycleA) (path cycleB)"
  by code_simp+

text \<open>
  C4. \<^verbatim>\<open>getDependencyFiles\<close> returns for every input, and a larger bound on the depth of
  the recursion gives the same walk; the paths handed to \<^verbatim>\<open>extractLocalImportPaths\<close>
  during a walk are pairwise distinct, so each file is scanned at most once; and when the
  only import of \<open>a\<close> resolves to \<open>b\<close> and the only import of \<open>b\<close> resolves to \<open>a\<close>, the
  walk from the selection \<open>[a]\<close> returns exactly \<open>[b]\<close>.
\<close>

theorem getDependencyFiles_terminates:
  "(\<exists>deps. getDependencyFiles pu selectedFiles allFiles root = Some deps) \<and>
   (\<forall>depth. length allFiles + 2 \<le> depth \<longrightarrow>
      walk pu depth selectedFiles allFiles root =
      walk pu (length allFiles + 2) selectedFiles allFiles root) \<and>
   (\<forall>depth w. walk pu depth selectedFiles allFiles root = Some w \<longrightarrow> distinct (scanned w)) \<and>
   (\<forall>(a::FileData) b ia ib pa pb.
      extractLocalImportPaths (content a) (path a) = Return [ia] \<and>
      resolveImportPath pu ia (path a) allFiles root = [pb] \<and>
      find (\<lambda>f. arePathsEquivalent pu (path f) pb) allFiles = Some b \<and>
      extractLocalImportPaths (content b) (path b) = Return [ib] \<and>
      resolveImportPath pu ib (path b) allFiles root = [pa] \<and>
      find (\<lambda>f. arePathsEquivalent pu (path f) pa) allFiles = Some a \<and>
      \<not> arePathsEquivalent pu (path a) (path b) \<longrightarrow>
      getDependencyFiles pu [a] allFiles root = Some [b])"
proof (intro conjI allI impI)
  show "\<exists>deps. getDependencyFiles pu selectedFiles allFiles root = Some deps"
    by (rule getDependencyFiles_total)
next
  fix depth assume le: "length allFiles + 2 \<le> depth"
  obtain w where w: "walk pu (length allFiles + 2) selectedFiles allFiles root = Some w"
    using walk_total [of allFiles "length allFiles + 2"] by blast
  from walk_le [OF w le] w
  show "walk pu depth selectedFiles allFiles root =
        walk pu (length allFiles + 2) selectedFiles allFiles root"
    by simp
next
  fix depth w assume "walk pu depth selectedFiles allFiles root = Some w"
  then show "distinct (scanned w)" by (simp add: walk_scanned_invariant)
next
  fix a b :: FileData and ia ib pa pb
  assume h: "extractLocalImportPaths (content a) (path a) = Return [ia] \<and>
      resolveImportPath pu ia (path a) allFiles root = [pb] \<and>
      find (\<lambda>f. arePathsEquivalent pu (path f) pb) allFiles = Some b \<and>
      extractLocalImportPaths (content b) (path b) = Return [ib] \<and>
      resolveImportPath pu ib (path b) allFiles root = [pa] \<and>
      find (\<lambda>f. arePathsEquivalent pu (path f) pa) allFiles = Some a \<and>
      \<not> arePathsEquivalent pu (path a) (path b)"
  then have "walk pu (Suc (Suc (length allFiles))) [a] allFiles root =
           Some \<lparr>dependencyFiles = [(path b, b)], processedFiles = {path b, path a},
                 scanned = [path a, path b]\<rparr>"
    by (intro two_file_cycle) auto
  then show "getDependencyFiles pu [a] allFiles root = Some [b]"
    by (simp add: getDependencyFiles_def)
qed

theorem getDependencyFiles_terminates_witness:
  "getDependencyFiles pathUtilsModel [cycleA] [cycleA, cycleB] ''/p'' = Some [cycleB] \<and>
   walk pathUtilsModel 9 [cycleA] [cycleA, cycleB] ''/p'' =
     walk pathUtilsModel 4 [cycleA] [cycleA, cycleB] ''/p'' \<and>
   (\<exists>w. walk pathUtilsModel 4 [cycleA] [cycleA, cycleB] ''/p'' = Some w \<and> distinct (scanned w))"
proof -
  note t = getDependencyFiles_terminates [of pathUtilsModel "[cycleA]" "[cycleA, cycleB]" "''/p''"]
  note t2 = t [THEN conjunct2, THEN conjunct1, rule_format]
  note t3 = t [THEN conjunct2, THEN conjunct2, THEN conjunct1, rule_format]
  note t4 = t [THEN conjunct2, THEN conjunct2, THEN conjunct2, rule_format,
      of cycleA "''./b''" "''/p/b.ts''" cycleB "''./a''" "''/p/a.ts''"]
  have cyc: "getDependencyFiles pathUtilsModel [cycleA] [cycleA, cycleB] ''/p'' = Some [cycleB]"
    by (rule t4) (intro conjI cycle_example_extract cycle_example_resolve cycle_example_find)
  have le: "length [cycleA, cycleB] + 2 \<le> (9::nat)" by simp
  have four: "length [cycleA, cycleB] + 2 = (4::nat)" by simp
  have dep: "walk pathUtilsModel 9 [cycleA] [cycleA, cycleB] ''/p'' =
     walk pathUtilsModel 4 [cycleA] [cycleA, cycleB] ''/p''"
    using t2 [OF le] unfolding four .
  from cyc [unfolded getDependencyFiles_def four]
  obtain w where w: "walk pathUtilsModel 4 [cycleA] [cycleA, cycleB] ''/p'' = Some w"
    by blast
  from t3 [OF w] have "distinct (scanned w)" .
  with cyc dep w show ?thesis by blast
qed

lemma raising_example_extraction:
  "getDependencyFiles pathUtilsModel raisingSelection raisingProject ''/p'' =
     Some [leafC, unloadedFile, importsUnloaded, cycleB]"
  by code_simp

lemma raising_example_resolution:
  "map_option (\<lambda>w. map snd (dependencyFiles w))
     (walkWith pathUtilsModel extractOf
        (resolveRaisingAt ''./bad'' (resolveOf pathUtilsModel raisingProject ''/p''))
        8 raisingSelection raisingProject) =
   Some [leafC, cycleB]"
  by code_simp

lemma raising_example_raises:
  "extractOf unloadedFile = Throw TypeError"
  "resolveRaisingAt ''./bad'' (resolveOf pathUtilsModel raisingProject ''/p'') ''./bad''
     importsLeafThenUnloaded = Throw TypeError"
  by code_simp+

text \<open>
  C8. An error raised inside the \<^verbatim>\<open>try\<close> block of \<^verbatim>\<open>processFile\<close>, by the extraction of
  the import paths of a file or by the resolution of one of them, does not reach the
  caller of \<^verbatim>\<open>getDependencyFiles\<close>, and costs the result only what the file at hand had
  still to contribute. For the walker with the two calls as parameters (of which \<open>walk\<close>
  is the instance at \<^verbatim>\<open>extractLocalImportPaths\<close> and \<^verbatim>\<open>resolveImportPath\<close>), and for every
  pair of calls that return or raise: the walk returns; the files of its result are
  exactly the files that a chain of imports reaches from a selected file, where a file
  whose extraction raised names no dependency and a file with an import path whose
  resolution raised names the dependencies of the import paths before it; and every
  selected file and every file of the result has been processed. So the result misses
  a file only if every chain of imports to it goes through an import that was not
  followed because of a raise. \<^verbatim>\<open>getDependencyFiles\<close> itself returns, with exactly the files
  that are reachable in this sense. The call stack is taken to be deep enough for the
  nested calls of \<^verbatim>\<open>processFile\<close>, at most one for each path of \<open>allFiles\<close> below a selected
  file.
\<close>

theorem getDependencyFiles_catches_exceptions:
  "(\<forall>depth. walk pu depth selectedFiles allFiles root =
      walkWith pu extractOf (resolveOf pu allFiles root) depth selectedFiles allFiles) \<and>
   (\<forall>extractPaths resolve.
      (\<forall>fd. extractPaths fd \<noteq> Diverge) \<and> (\<forall>importPath fd. resolve importPath fd \<noteq> Diverge) \<longrightarrow>
      (\<exists>w. walkWith pu extractPaths resolve (length allFiles + 2) selectedFiles allFiles = Some w \<and>
           set (map snd (dependencyFiles w)) =
             reachableDependencies pu extractPaths resolve selectedFiles allFiles \<and>
           path ` set selectedFiles \<union>
             path ` reachableDependencies pu extractPaths resolve selectedFiles allFiles
             \<subseteq> processedFiles w)) \<and>
   (\<exists>deps. getDependencyFiles pu selectedFiles allFiles root = Some deps \<and>
      set deps =
        reachableDependencies pu extractOf (resolveOf pu allFiles root) selectedFiles allFiles)"
proof (intro conjI allI impI)
  fix depth
  show "walk pu depth selectedFiles allFiles root =
      walkWith pu extractOf (resolveOf pu allFiles root) depth selectedFiles allFiles"
    by (rule walk_walkWith)
next
  fix extractPaths :: "FileData \<Rightarrow> string list outcome"
    and resolve :: "string \<Rightarrow> FileData \<Rightarrow> string list outcome"
  assume "(\<forall>fd. extractPaths fd \<noteq> Diverge) \<and> (\<forall>importPath fd. resolve importPath fd \<noteq> Diverge)"
  then have ex: "\<And>fd. extractPaths fd \<noteq> Diverge"
    and re: "\<And>importPath fd. resolve importPath fd \<noteq> Diverge"
    by simp_all
  have le: "length allFiles + 2 \<le> length allFiles + 2" by simp
  from ex re le
  have "\<exists>w. walkWith pu extractPaths resolve (length allFiles + 2) selectedFiles allFiles = Some w"
    by (rule walkWith_total)
  then obtain w where
    w: "walkWith pu extractPaths resolve (length allFiles + 2) selectedFiles allFiles = Some w" ..
  from ex re w
  have "dependencyValues w = reachableDependencies pu extractPaths resolve selectedFiles allFiles \<and>
         path ` set selectedFiles \<union>
           path ` reachableDependencies pu extractPaths resolve selectedFiles allFiles
           \<subseteq> processedFiles w"
    by (rule walkWith_reachable)
  with w show "\<exists>w. walkWith pu extractPaths resolve (length allFiles + 2) selectedFiles allFiles = Some w \<and>
           set (map snd (dependencyFiles w)) =
             reachableDependencies pu extractPaths resolve selectedFiles allFiles \<and>
           path ` set selectedFiles \<union>
             path ` reachableDependencies pu extractPaths resolve selectedFiles allFiles
             \<subseteq> processedFiles w"
    by (simp add: dependencyValues_def)
next
  have ex: "\<And>fd. extractOf fd \<noteq> Diverge"
    by (simp add: extractOf_def extractLocalImportPaths_not_Diverge)
  have re: "\<And>importPath fd. resolveOf pu allFiles root importPath fd \<noteq> Diverge"
    by (simp add: resolveOf_def)
  have le: "length allFiles + 2 \<le> length allFiles + 2" by simp
  from ex re le
  have "\<exists>w. walkWith pu extractOf (resolveOf pu allFiles root) (length allFiles + 2)
          selectedFiles allFiles = Some w"
    by (rule walkWith_total)
  then obtain w where
    w: "walkWith pu extractOf (resolveOf pu allFiles root) (length allFiles + 2)
          selectedFiles allFiles = Some w" ..
  from ex re w
  have "dependencyValues w =
          reachableDependencies pu extractOf (resolveOf pu allFiles root) selectedFiles allFiles \<and>
        path ` set selectedFiles \<union>
          path ` reachableDependencies pu extractOf (resolveOf pu allFiles root) selectedFiles allFiles
          \<subseteq> processedFiles w"
    by (rule walkWith_reachable)
  with w show "\<exists>deps. getDependencyFiles pu selectedFiles allFiles root = Some deps \<and>
      set deps =
        reachableDependencies pu extractOf (resolveOf pu allFiles root) selectedFiles allFiles"
    by (simp add: getDependencyFiles_def walk_walkWith dependencyValues_def)
qed

theorem getDependencyFiles_catches_exceptions_witness:
  "extractOf unloadedFile = Throw TypeError \<and>
   getDependencyFiles pathUtilsModel raisingSelection raisingProject ''/p'' =
     Some [leafC, unloadedFile, importsUnloaded, cycleB] \<and>
   reachableDependencies pathUtilsModel extractOf (resolveOf pathUtilsModel raisingProject ''/p'')
       raisingSelection raisingProject =
     {leafC, unloadedFile, importsUnloaded, cycleB} \<and>
   resolveRaisingAt ''./bad'' (resolveOf pathUtilsModel raisingProject ''/p'') ''./bad''
       importsLeafThenUnloaded = Throw TypeError \<and>
   map_option (\<lambda>w. map snd (dependencyFiles w))
     (walkWith pathUtilsModel extractOf
        (resolveRaisingAt ''./bad'' (resolveOf pathUtilsModel raisingProject ''/p''))
        8 raisingSelection raisingProject) =
     Some [leafC, cycleB] \<and>
   reachableDependencies pathUtilsModel extractOf
       (resolveRaisingAt ''./bad'' (resolveOf pathUtilsModel raisingProject ''/p''))
       raisingSelection raisingProject =
     {leafC, cycleB}"
proof -
  let ?resolve = "resolveRaisingAt ''./bad'' (resolveOf pathUtilsModel raisingProject ''/p'')"
  note t = getDependencyFiles_catches_exceptions
    [of pathUtilsModel raisingSelection raisingProject "''/p''"]
  note generic = t [THEN conjunct2, THEN conjunct1, rule_format, of extractOf ?resolve]
  note actual = t [THEN conjunct2, THEN conjunct2]
  have depth: "length raisingProject + 2 = 8" by (simp add: raisingProject_def)
  have hooks: "(\<forall>fd. extractOf fd \<noteq> Diverge) \<and> (\<forall>importPath fd. ?resolve importPath fd \<noteq> Diverge)"
    by (simp add: extractOf_def extractLocalImportPaths_not_Diverge resolveRaisingAt_def
        resolveOf_def)
  from generic [OF hooks] obtain w where
    w: "walkWith pathUtilsModel extractOf ?resolve (length raisingProject + 2)
          raisingSelection raisingProject = Some w"
    and r: "set (map snd (dependencyFiles w)) =
          reachableDependencies pathUtilsModel extractOf ?resolve raisingSelection raisingProject"
    by blast
  from w raising_example_resolution have "map snd (dependencyFiles w) = [leafC, cycleB]"
    by (simp only: depth map_option_eq_Some option.inject) simp
  with r have second: "reachableDependencies pathUtilsModel extractOf ?resolve
      raisingSelection raisingProject = {leafC, cycleB}"
    by simp
  from actual raising_example_extraction
  have first: "reachableDependencies pathUtilsModel extractOf
      (resolveOf pathUtilsModel raisingProject ''/p'') raisingSelection raisingProject =
     {leafC, unloadedFile, importsUnloaded, cycleB}"
    by simp
  from raising_example_raises raising_example_extraction raising_example_resolution first second
  show ?thesis by (intro conjI)
qed


section \<open>Properties of the import extractor\<close>

lemma extractionExample_text:
  "extractionExample =
     ''import helper from '' @ [CHR 0x27] @ ''./utils/helper'' @ [CHR 0x27] @ '';'' @ [CHR 0x0A] @
     ''import React from '' @ [CHR 0x27] @ ''react'' @ [CHR 0x27] @ '';''"
  by (simp add: extractionExample_def importLine_def)

lemma extractionExample_javascript:
  "andThen (parseJavaScriptImports (Some extractionExample)) (\<lambda>imports.
       Return
         (List.map_filter (\<lambda>p. if isLocalImport p then map_option stripExtension p else None)
            (map ImportInfo.path imports))) = Return [''./utils/helper'']"
  by code_simp

text \<open>
  C6, as the code has it. For the content of the example and every file path whose
  extension selects the JavaScript/TypeScript scanner (js, jsx, ts, tsx, in any case),
  \<^verbatim>\<open>extractLocalImportPaths\<close> returns exactly \<^verbatim>\<open>['./utils/helper']\<close>.
\<close>

theorem extractLocalImportPaths_example:
  assumes "extensionOf filePath \<in> {Some ''js'', Some ''jsx'', Some ''ts'', Some ''tsx''}"
  shows "extractLocalImportPaths (Some extractionExample) filePath = Return [''./utils/helper'']"
  using assms extractionExample_javascript
  by (simp add: extractLocalImportPaths_def parseFileImports_def Let_def)

theorem extractLocalImportPaths_example_witness:
  "extensionOf ''C:/project/src/App.ts'' \<in> {Some ''js'', Some ''jsx'', Some ''ts'', Some ''tsx''} \<and>
   extractLocalImportPaths (Some extractionExample) ''C:/project/src/App.ts'' =
     Return [''./utils/helper'']"
proof -
  have h: "extensionOf ''C:/project/src/App.ts'' \<in> {Some ''js'', Some ''jsx'', Some ''ts'', Some ''tsx''}"
    by code_simp
  from h extractLocalImportPaths_example [OF h] show ?thesis by simp
qed

text \<open>
  For a path with another extension the scanner is not the JavaScript one, and the result
  differs: C6 does not hold for every file path.
\<close>

theorem extractLocalImportPaths_other_extension_counterexample:
  "extractLocalImportPaths (Some extractionExample) ''docs/notes.md'' \<noteq> Return [''./utils/helper'']"
  by code_simp

lemma endsWith_iff_prefix: "endsWith s suf \<longleftrightarrow> prefix (rev suf) (rev s)"
proof -
  have "endsWith s suf \<longleftrightarrow> suffix suf s"
    by (auto simp: endsWith_def suffix_def) (metis append_take_drop_id diff_add_inverse2 length_append length_drop)
  then show ?thesis by (simp add: suffix_to_prefix)
qed

lemma exec_complete:
  "rmatch r (suf, []) \<noteq> [] \<Longrightarrow> exec r i (pre @ suf) \<noteq> None"
proof (induction pre arbitrary: i)
  case Nil
  then show ?case by (cases suf) (auto split: list.splits)
next
  case (Cons c pre)
  then show ?case by (auto split: list.splits)
qed

lemma rmatch_Seq_empty_rest:
  assumes "\<And>st1 st2. st2 \<in> set (rmatch b st1) \<Longrightarrow> fst st2 = []"
  shows "st' \<in> set (rmatch (Seq a b) st) \<Longrightarrow> fst st' = []"
proof -
  assume "st' \<in> set (rmatch (Seq a b) st)"
  then obtain st1 where "st' \<in> set (rmatch b st1)" by auto
  then show ?thesis by (rule assms)
qed

lemma jsExtensionRegex_rest: "st' \<in> set (rmatch jsExtensionRegex st) \<Longrightarrow> fst st' = []"
  unfolding jsExtensionRegex_def seqs.simps
  by (erule rmatch_Seq_empty_rest [rotated], erule rmatch_Seq_empty_rest [rotated])
    (auto simp: startsWith_def split: if_splits)

lemma pyExtensionRegex_rest: "st' \<in> set (rmatch pyExtensionRegex st) \<Longrightarrow> fst st' = []"
  unfolding pyExtensionRegex_def seqs.simps
  by (erule rmatch_Seq_empty_rest [rotated])
    (auto simp: startsWith_def split: if_splits)

lemma lang_jsExtensionRegex: "lang jsExtensionRegex = {''.js'', ''.ts'', ''.jsx'', ''.tsx''}"
  by (auto simp: jsExtensionRegex_def)

lemma lang_pyExtensionRegex: "lang pyExtensionRegex = {''.py''}"
  by (auto simp: pyExtensionRegex_def)

lemma endsWith_append: "endsWith (p @ e) e"
  by (simp add: endsWith_def)

lemma endsWithE:
  assumes "endsWith s e"
  obtains q where "s = q @ e"
  using assms by (metis append_take_drop_id endsWith_def)

lemma same_tail_js:
  assumes "e \<in> {''.js'', ''.ts'', ''.jsx'', ''.tsx''}" "t \<in> {''.js'', ''.ts'', ''.jsx'', ''.tsx''}"
    and "p @ e = pre @ t"
  shows "pre = p"
proof -
  from assms(3) have "rev (p @ e) = rev (pre @ t)" by simp
  with assms(1,2) show ?thesis by auto
qed

lemma replaceFirst_jsExtensionRegex:
  assumes e: "e \<in> {''.js'', ''.ts'', ''.jsx'', ''.tsx''}"
  shows "replaceFirst jsExtensionRegex [] (p @ e) = p"
proof -
  from e have "rmatch jsExtensionRegex (e, []) \<noteq> []"
    by (auto simp: jsExtensionRegex_def startsWith_def)
  from exec_complete [OF this, of 0 p] obtain m where m: "exec jsExtensionRegex 0 (p @ e) = Some m"
    by blast
  from exec_decomp [OF m] obtain pre where pre: "p @ e = pre @ text0 m @ rest m"
    "index m = length pre" "(rest m, groups m) \<in> set (rmatch jsExtensionRegex (text0 m @ rest m, []))"
    by auto
  from jsExtensionRegex_rest [OF pre(3)] have r: "rest m = []" by simp
  from m have "text0 m \<in> lang jsExtensionRegex" by (rule exec_sound)
  then have "text0 m \<in> {''.js'', ''.ts'', ''.jsx'', ''.tsx''}"
    by (simp only: lang_jsExtensionRegex)
  with e pre(1) r have "pre = p" by (intro same_tail_js [of e "text0 m" p pre]) simp_all
  with m pre(2) r show ?thesis by (simp add: replaceFirst_def)
qed

lemma replaceFirst_pyExtensionRegex: "replaceFirst pyExtensionRegex [] (p @ ''.py'') = p"
proof -
  have "rmatch pyExtensionRegex (''.py'', []) \<noteq> []"
    by (simp add: pyExtensionRegex_def startsWith_def)
  from exec_complete [OF this, of 0 p] obtain m where m: "exec pyExtensionRegex 0 (p @ ''.py'') = Some m"
    by blast
  from exec_decomp [OF m] obtain pre where pre: "p @ ''.py'' = pre @ text0 m @ rest m"
    "index m = length pre" "(rest m, groups m) \<in> set (rmatch pyExtensionRegex (text0 m @ rest m, []))"
    by auto
  from pyExtensionRegex_rest [OF pre(3)] have r: "rest m = []" by simp
  from m have "text0 m \<in> lang pyExtensionRegex" by (rule exec_sound)
  then have "text0 m = ''.py''" by (simp only: lang_pyExtensionRegex) simp
  with pre(1) r have "pre = p" by simp
  with m pre(2) r show ?thesis by (simp add: replaceFirst_def)
qed

lemma stripExtension_strips:
  assumes "e \<in> {''.js'', ''.ts'', ''.jsx'', ''.tsx'', ''.py''}"
  shows "stripExtension (p @ e) = p"
proof (cases "e = ''.py''")
  case True
  then show ?thesis
    by (simp add: stripExtension_def endsWith_iff_prefix replaceFirst_pyExtensionRegex)
next
  case False
  with assms have e: "e \<in> {''.js'', ''.ts'', ''.jsx'', ''.tsx''}" by simp
  then have "endsWith (p @ e) ''.js'' \<or> endsWith (p @ e) ''.ts'' \<or>
             endsWith (p @ e) ''.jsx'' \<or> endsWith (p @ e) ''.tsx''"
    using endsWith_append [of p e] by auto
  with e show ?thesis
    by (simp add: stripExtension_def replaceFirst_jsExtensionRegex)
qed

lemma stripExtension_keeps_css:
  assumes "endsWith p ''.css'' \<or> endsWith p ''.scss'' \<or> endsWith p ''.sass''"
  shows "stripExtension p = p"
proof -
  from assms obtain q e where "p = q @ e" "e \<in> {''.css'', ''.scss'', ''.sass''}"
    by (auto elim!: endsWithE)
  then show ?thesis
    by (auto simp: stripExtension_def endsWith_iff_prefix)
qed

lemma isLocalImport_None: "\<not> isLocalImport None"
  by (simp add: isLocalImport_def)

lemma extractLocalImportPaths_Return:
  assumes "parseFileImports c filePath = Return imports"
  shows "extractLocalImportPaths c filePath =
           Return (map stripExtension
                     (filter (\<lambda>p. isLocalImport (Some p))
                        (List.map_filter id (map ImportInfo.path imports))))"
proof -
  have "List.map_filter (\<lambda>p. if isLocalImport p then map_option stripExtension p else None) ps =
        map stripExtension (filter (\<lambda>p. isLocalImport (Some p)) (List.map_filter id ps))" for ps
    by (induction ps) (auto simp: List.map_filter_simps isLocalImport_None split: option.splits)
  with assms show ?thesis by (simp add: extractLocalImportPaths_def)
qed

lemma localityExample_paths:
  "extractLocalImportPaths (Some localityExample) ''src/App.tsx'' =
     Return [''./x'', ''./s.css'', ''lodash/debounce'']"
  by code_simp

lemma isLocalImport_samples:
  "isLocalImport (Some ''./x'')" "isLocalImport (Some ''../x'')" "isLocalImport (Some ''/x'')"
  "isLocalImport (Some ''lodash/debounce'')" "\<not> isLocalImport (Some ''react'')"
  "\<not> isLocalImport (Some ''axios'')" "\<not> isLocalImport (Some ''https://cdn/x.js'')"
  by code_simp+

text \<open>
  C5. \<^verbatim>\<open>isLocalImport\<close> on the seven sample paths; \<^verbatim>\<open>extractLocalImportPaths\<close> returns the
  paths that pass the filter, each mapped by \<^verbatim>\<open>stripExtension\<close>; a trailing \<^verbatim>\<open>.js\<close>, \<^verbatim>\<open>.ts\<close>,
  \<^verbatim>\<open>.jsx\<close>, \<^verbatim>\<open>.tsx\<close> or \<^verbatim>\<open>.py\<close> is removed, and a path that ends in \<^verbatim>\<open>.css\<close>, \<^verbatim>\<open>.scss\<close> or
  \<^verbatim>\<open>.sass\<close> is left as it is.
\<close>

theorem locality_filter_and_extension_stripping:
  "isLocalImport (Some ''./x'') \<and> isLocalImport (Some ''../x'') \<and> isLocalImport (Some ''/x'') \<and>
   isLocalImport (Some ''lodash/debounce'') \<and> \<not> isLocalImport (Some ''react'') \<and>
   \<not> isLocalImport (Some ''axios'') \<and> \<not> isLocalImport (Some ''https://cdn/x.js'') \<and>
   (\<forall>c filePath imports.
      parseFileImports c filePath = Return imports \<longrightarrow>
      extractLocalImportPaths c filePath =
        Return (map stripExtension
                  (filter (\<lambda>p. isLocalImport (Some p))
                     (List.map_filter id (map ImportInfo.path imports))))) \<and>
   (\<forall>p e. e \<in> {''.js'', ''.ts'', ''.jsx'', ''.tsx'', ''.py''} \<longrightarrow> stripExtension (p @ e) = p) \<and>
   (\<forall>p. endsWith p ''.css'' \<or> endsWith p ''.scss'' \<or> endsWith p ''.sass'' \<longrightarrow>
      stripExtension p = p)"
proof (intro conjI allI impI)
  fix c filePath found
  assume "parseFileImports c filePath = Return found"
  then show "extractLocalImportPaths c filePath =
        Return (map stripExtension
                  (filter (\<lambda>p. isLocalImport (Some p))
                     (List.map_filter id (map ImportInfo.path found))))"
    by (rule extractLocalImportPaths_Return)
next
  fix p e :: string
  assume "e \<in> {''.js'', ''.ts'', ''.jsx'', ''.tsx'', ''.py''}"
  then show "stripExtension (p @ e) = p" by (rule stripExtension_strips)
next
  fix p
  assume "endsWith p ''.css'' \<or> endsWith p ''.scss'' \<or> endsWith p ''.sass''"
  then show "stripExtension p = p" by (rule stripExtension_keeps_css)
qed (rule isLocalImport_samples)+

theorem locality_filter_and_extension_stripping_witness:
  "stripExtension ''./utils/helper.ts'' = ''./utils/helper'' \<and>
   stripExtension ''tools/gen.py'' = ''tools/gen'' \<and>
   endsWith ''./theme.scss'' ''.scss'' \<and> stripExtension ''./theme.scss'' = ''./theme.scss'' \<and>
   extractLocalImportPaths (Some localityExample) ''src/App.tsx'' =
     Return [''./x'', ''./s.css'', ''lodash/debounce'']"
proof -
  note t = locality_filter_and_extension_stripping
  note strip = t [THEN conjunct2, THEN conjunct2, THEN conjunct2, THEN conjunct2, THEN conjunct2,
      THEN conjunct2, THEN conjunct2, THEN conjunct2, THEN conjunct1, rule_format]
  note keep = t [THEN conjunct2, THEN conjunct2, THEN conjunct2, THEN conjunct2, THEN conjunct2,
      THEN conjunct2, THEN conjunct2, THEN conjunct2, THEN conjunct2, rule_format]
  have a: "stripExtension (''./utils/helper'' @ ''.ts'') = ''./utils/helper''"
    by (rule strip) simp
  have b: "stripExtension (''tools/gen'' @ ''.py'') = ''tools/gen''"
    by (rule strip) simp
  have e: "endsWith ''./theme.scss'' ''.scss''" by code_simp
  then have c: "stripExtension ''./theme.scss'' = ''./theme.scss''"
    by (intro keep) simp
  from a b e c localityExample_paths show ?thesis by simp
qed


subsection \<open>Side-effect imports\<close>

lemma lang_SeqE:
  assumes "w \<in> lang (Seq a b)"
  obtains u v where "w = u @ v" "u \<in> lang a" "v \<in> lang b"
  using assms by auto

lemma starL_Cls: "w \<in> starL {[c] | c. P c} \<Longrightarrow> x \<in> set w \<Longrightarrow> P x"
  by (induction rule: starL.induct) auto

lemma lang_Star_Cls: "w \<in> lang (Star (Cls P)) \<Longrightarrow> \<forall>c \<in> set w. P c"
  by (auto dest: starL_Cls)

lemma lang_Plus_Cls: "w \<in> lang (Plus (Cls P)) \<Longrightarrow> \<forall>c \<in> set w. P c"
  by (auto simp: Plus_def dest: starL_Cls)

text \<open>A word of \<^verbatim>\<open>['"]([^'"]+)['"]\<close> followed by anything.\<close>

lemma quoted_path_shape:
  assumes "w \<in> lang (Seq quote (Seq (Grp 1 (Plus notQuote)) (Seq quote r)))"
  obtains q1 v q2 y where "w = q1 # v @ q2 # y" "isQuote q1" "isQuote q2" "\<forall>c \<in> set v. \<not> isQuote c"
proof -
  from assms obtain a t1 where 1: "w = a @ t1" "a \<in> lang quote"
    "t1 \<in> lang (Seq (Grp 1 (Plus notQuote)) (Seq quote r))"
    by (rule lang_SeqE)
  from 1(3) obtain v t2 where 2: "t1 = v @ t2" "v \<in> lang (Grp 1 (Plus notQuote))"
    "t2 \<in> lang (Seq quote r)"
    by (rule lang_SeqE)
  from 2(3) obtain b y where 3: "t2 = b @ y" "b \<in> lang quote" by (rule lang_SeqE)
  from 1(2) obtain q1 where q1: "a = [q1]" "isQuote q1" by (auto simp: quote_def)
  from 3(2) obtain q2 where q2: "b = [q2]" "isQuote q2" by (auto simp: quote_def)
  from 2(2) have "v \<in> lang (Plus (Cls (\<lambda>c. \<not> isQuote c)))" by (simp add: notQuote_def)
  then have "\<forall>c \<in> set v. \<not> isQuote c" by (rule lang_Plus_Cls)
  with 1(1) 2(1) 3(1) q1 q2 that show thesis by simp
qed

lemma jsImportRegex_shape:
  assumes "w \<in> lang jsImportRegex"
  obtains x q1 v q2 y where "w = x @ q1 # v @ q2 # y" "isQuote q1" "isQuote q2"
    "\<forall>c \<in> set v. \<not> isQuote c" "CHR ''f'' \<in> set x"
proof -
  from assms obtain u1 t1 where 1: "w = u1 @ t1" "t1 \<in> lang (seqs [Plus ws,
           Alt braces
             (Alt (seqs [Lit ''*'', Plus ws, Lit ''as'', Plus ws, Plus wordChar])
                (Alt (seqs [Plus wordChar, Star (seqs [Star ws, Lit '','', Star ws, braces])])
                   (Plus wordChar))),
           Plus ws, Lit ''from'', Plus ws, quote, Grp 1 (Plus notQuote), quote])"
    unfolding jsImportRegex_def seqs.simps(2) [of "Lit ''import''"] by (rule lang_SeqE)
  from 1(2) obtain u2 t2 where 2: "t1 = u2 @ t2" "t2 \<in> lang (seqs [
           Alt braces
             (Alt (seqs [Lit ''*'', Plus ws, Lit ''as'', Plus ws, Plus wordChar])
                (Alt (seqs [Plus wordChar, Star (seqs [Star ws, Lit '','', Star ws, braces])])
                   (Plus wordChar))),
           Plus ws, Lit ''from'', Plus ws, quote, Grp 1 (Plus notQuote), quote])"
    unfolding seqs.simps(2) [of "Plus ws"] by (rule lang_SeqE)
  from 2(2) obtain u3 t3 where 3: "t2 = u3 @ t3"
    "t3 \<in> lang (seqs [Plus ws, Lit ''from'', Plus ws, quote, Grp 1 (Plus notQuote), quote])"
    unfolding seqs.simps(2) [of "Alt _ _"] by (rule lang_SeqE)
  from 3(2) obtain u4 t4 where 4: "t3 = u4 @ t4"
    "t4 \<in> lang (seqs [Lit ''from'', Plus ws, quote, Grp 1 (Plus notQuote), quote])"
    unfolding seqs.simps(2) [of "Plus ws"] by (rule lang_SeqE)
  from 4(2) obtain u5 t5 where 5: "t4 = u5 @ t5" "u5 \<in> lang (Lit ''from'')"
    "t5 \<in> lang (seqs [Plus ws, quote, Grp 1 (Plus notQuote), quote])"
    unfolding seqs.simps(2) [of "Lit ''from''"] by (rule lang_SeqE)
  from 5(3) obtain u6 t6 where 6: "t5 = u6 @ t6"
    "t6 \<in> lang (Seq quote (Seq (Grp 1 (Plus notQuote)) (Seq quote (Lit []))))"
    unfolding seqs.simps by (rule lang_SeqE)
  from 6(2) obtain q1 v q2 y where 7: "t6 = q1 # v @ q2 # y" "isQuote q1" "isQuote q2"
    "\<forall>c \<in> set v. \<not> isQuote c"
    by (rule quoted_path_shape)
  from 5(2) have "u5 = ''from''" by simp
  then have "CHR ''f'' \<in> set (u1 @ u2 @ u3 @ u4 @ u5 @ u6)" by simp
  moreover from 1(1) 2(1) 3(1) 4(1) 5(1) 6(1) 7(1)
  have "w = (u1 @ u2 @ u3 @ u4 @ u5 @ u6) @ q1 # v @ q2 # y" by simp
  ultimately show thesis using 7(2-4) that by blast
qed

lemma call_regex_shape:
  assumes "w \<in> lang (seqs [Lit kw, Star ws, Lit ''('', Star ws, quote, Grp 1 (Plus notQuote), quote,
           Star ws, Lit '')''])"
  obtains x q1 v q2 y where "w = x @ q1 # v @ q2 # y" "isQuote q1" "isQuote q2"
    "\<forall>c \<in> set v. \<not> isQuote c" "CHR ''('' \<in> set x"
proof -
  from assms obtain u1 t1 where 1: "w = u1 @ t1" "t1 \<in> lang (seqs [Star ws, Lit ''('', Star ws,
      quote, Grp 1 (Plus notQuote), quote, Star ws, Lit '')''])"
    unfolding seqs.simps(2) [of "Lit kw"] by (rule lang_SeqE)
  from 1(2) obtain u2 t2 where 2: "t1 = u2 @ t2" "t2 \<in> lang (seqs [Lit ''('', Star ws,
      quote, Grp 1 (Plus notQuote), quote, Star ws, Lit '')''])"
    unfolding seqs.simps(2) [of "Star ws"] by (rule lang_SeqE)
  from 2(2) obtain u3 t3 where 3: "t2 = u3 @ t3" "u3 \<in> lang (Lit ''('')" "t3 \<in> lang (seqs [Star ws,
      quote, Grp 1 (Plus notQuote), quote, Star ws, Lit '')''])"
    unfolding seqs.simps(2) [of "Lit ''(''"] by (rule lang_SeqE)
  from 3(3) obtain u4 t4 where 4: "t3 = u4 @ t4"
    "t4 \<in> lang (Seq quote (Seq (Grp 1 (Plus notQuote)) (Seq quote (seqs [Star ws, Lit '')'']))))"
    unfolding seqs.simps(2) [of "Star ws" "quote # _"] seqs.simps(2) [of quote]
      seqs.simps(2) [of "Grp 1 _"]
    by (rule lang_SeqE)
  from 4(2) obtain q1 v q2 y where 5: "t4 = q1 # v @ q2 # y" "isQuote q1" "isQuote q2"
    "\<forall>c \<in> set v. \<not> isQuote c"
    by (rule quoted_path_shape)
  from 3(2) have "u3 = ''(''" by simp
  then have "CHR ''('' \<in> set (u1 @ u2 @ u3 @ u4)" by simp
  moreover from 1(1) 2(1) 3(1) 4(1) 5(1)
  have "w = (u1 @ u2 @ u3 @ u4) @ q1 # v @ q2 # y" by simp
  ultimately show thesis using 5(2-4) that by blast
qed

lemma before_first_quote:
  assumes q: "isQuote q" and p: "\<forall>c \<in> set p. \<not> isQuote c"
    and dec: "sideEffectImport q p = a @ q1 # v @ q2 # b"
    and q1: "isQuote q1" and q2: "isQuote q2" and v: "\<forall>c \<in> set v. \<not> isQuote c"
  shows "a = ''import ''"
proof -
  from p have fp: "filter isQuote p = []" by (simp add: filter_empty_conv)
  from v have fv: "filter isQuote v = []" by (simp add: filter_empty_conv)
  have A: "filter isQuote (sideEffectImport q p) = [q, q]"
    using q fp by (simp add: sideEffectImport_def isQuote_def)
  have B: "filter isQuote (a @ q1 # v @ q2 # b) =
      filter isQuote a @ q1 # q2 # filter isQuote b"
    using q1 q2 fv by simp
  from A B have "filter isQuote a @ q1 # q2 # filter isQuote b = [q, q]"
    by (simp only: dec)
  then have "length (filter isQuote a @ q1 # q2 # filter isQuote b) = length [q, q]"
    by (rule arg_cong)
  then have "filter isQuote a = []" by simp
  then have a: "\<forall>c \<in> set a. \<not> isQuote c" by (simp add: filter_empty_conv)
  have "takeWhile (\<lambda>c. \<not> isQuote c) (a @ q1 # v @ q2 # b) = a"
    using a q1 by (simp add: takeWhile_tail)
  moreover have "takeWhile (\<lambda>c. \<not> isQuote c) (sideEffectImport q p) = ''import ''"
    using q by (simp add: sideEffectImport_def isQuote_def)
  ultimately show ?thesis using dec by simp
qed

lemma exec_sideEffectImport:
  assumes q: "isQuote q" and p: "\<forall>c \<in> set p. \<not> isQuote c"
    and shape: "\<And>w. w \<in> lang r \<Longrightarrow>
       \<exists>x q1 v q2 y. w = x @ q1 # v @ q2 # y \<and> isQuote q1 \<and> isQuote q2 \<and>
         (\<forall>c \<in> set v. \<not> isQuote c) \<and> ch \<in> set x"
    and ch: "ch \<notin> set ''import ''"
  shows "exec r i (sideEffectImport q p) = None"
proof (rule ccontr)
  assume "exec r i (sideEffectImport q p) \<noteq> None"
  then obtain m where m: "exec r i (sideEffectImport q p) = Some m" by blast
  then obtain pre where pre: "sideEffectImport q p = pre @ text0 m @ rest m" "text0 m \<in> lang r"
    by (rule exec_sound)
  from shape [OF pre(2)] obtain x q1 v q2 y where w: "text0 m = x @ q1 # v @ q2 # y"
    "isQuote q1" "isQuote q2" "\<forall>c \<in> set v. \<not> isQuote c" "ch \<in> set x"
    by blast
  from pre(1) w(1) have "sideEffectImport q p = (pre @ x) @ q1 # v @ q2 # (y @ rest m)"
    by simp
  from before_first_quote [OF q p this w(2-4)] have "pre @ x = ''import ''" .
  then have "set x \<subseteq> set ''import ''" by (metis set_append sup_ge2)
  with w(5) ch show False by blast
qed

lemma execAll_None: "exec r i s = None \<Longrightarrow> execAll r i s = Some []"
  by (simp add: execAll.simps)

lemma jsLine_sideEffectImport:
  assumes q: "isQuote q" and p: "\<forall>c \<in> set p. \<not> isQuote c"
  shows "jsLine lineIndex (sideEffectImport q p) = Return []"
proof -
  have 1: "exec jsImportRegex 0 (sideEffectImport q p) = None"
    by (rule exec_sideEffectImport [OF q p, where ch = "CHR ''f''"])
      (erule jsImportRegex_shape, blast, simp)
  have 2: "exec dynamicImportRegex 0 (sideEffectImport q p) = None"
    unfolding dynamicImportRegex_def
    by (rule exec_sideEffectImport [OF q p, where ch = "CHR ''(''"])
      (erule call_regex_shape, blast, simp)
  have 3: "exec requireRegex 0 (sideEffectImport q p) = None"
    unfolding requireRegex_def
    by (rule exec_sideEffectImport [OF q p, where ch = "CHR ''(''"])
      (erule call_regex_shape, blast, simp)
  from 1 2 3 show ?thesis
    by (simp add: jsLine_def execAll_None ofLoop_def)
qed

lemma extract_sideEffectImport:
  assumes q: "isQuote q" and p: "\<forall>c \<in> set p. \<not> isQuote c" and nl: "CHR 0x0A \<notin> set p"
    and ext: "extensionOf filePath \<in> {Some ''js'', Some ''jsx'', Some ''ts'', Some ''tsx''}"
  shows "extractLocalImportPaths (Some (sideEffectImport q p)) filePath = Return []"
proof -
  from q nl have "CHR 0x0A \<notin> set (sideEffectImport q p)"
    by (auto simp: sideEffectImport_def isQuote_def)
  then have "split CHR 0x0A (sideEffectImport q p) = [sideEffectImport q p]"
    by (rule split_without_separator)
  then have "parseJavaScriptImports (Some (sideEffectImport q p)) = Return []"
    by (simp add: parseJavaScriptImports_def jsLine_sideEffectImport [OF q p])
  with ext show ?thesis
    by (simp add: extractLocalImportPaths_def parseFileImports_def Let_def List.map_filter_simps)
qed

text \<open>
  C10, as the code has it. For a side-effect import line \<^verbatim>\<open>import '<path>';\<close> (with either
  quote) whose path contains no quote character, none of the three patterns of the
  JavaScript/TypeScript scanner matches anywhere in the line, so the scanner produces no
  record for it; and \<^verbatim>\<open>extractLocalImportPaths\<close> of a content that is this one line, for a
  file scanned as JavaScript/TypeScript, returns no path.
\<close>

theorem side_effect_import_not_scanned:
  assumes "isQuote q" and "\<forall>c \<in> set p. \<not> isQuote c"
  shows "jsLine lineIndex (sideEffectImport q p) = Return [] \<and>
         (CHR 0x0A \<notin> set p \<and>
          extensionOf filePath \<in> {Some ''js'', Some ''jsx'', Some ''ts'', Some ''tsx''} \<longrightarrow>
          extractLocalImportPaths (Some (sideEffectImport q p)) filePath = Return [])"
  using assms by (simp add: jsLine_sideEffectImport extract_sideEffectImport)

theorem side_effect_import_not_scanned_witness:
  "isQuote CHR 0x27 \<and> filter isQuote ''./App.css'' = [] \<and>
   sideEffectImport CHR 0x27 ''./App.css'' = ''import '' @ [CHR 0x27] @ ''./App.css'' @ [CHR 0x27] @ '';'' \<and>
   jsLine 0 (sideEffectImport CHR 0x27 ''./App.css'') = Return [] \<and>
   CHR 0x0A \<notin> set ''./App.css'' \<and>
   extensionOf ''src/App.tsx'' \<in> {Some ''js'', Some ''jsx'', Some ''ts'', Some ''tsx''} \<and>
   extractLocalImportPaths (Some (sideEffectImport CHR 0x27 ''./App.css'')) ''src/App.tsx'' = Return []"
proof -
  have h1: "isQuote CHR 0x27" by (simp add: isQuote_def)
  have h2: "\<forall>c \<in> set ''./App.css''. \<not> isQuote c" by (simp add: isQuote_def)
  have h3: "CHR 0x0A \<notin> set ''./App.css''" by simp
  have h4: "extensionOf ''src/App.tsx'' \<in> {Some ''js'', Some ''jsx'', Some ''ts'', Some ''tsx''}"
    by code_simp
  have h5: "sideEffectImport CHR 0x27 ''./App.css'' =
      ''import '' @ [CHR 0x27] @ ''./App.css'' @ [CHR 0x27] @ '';''"
    by (simp add: sideEffectImport_def)
  note t = side_effect_import_not_scanned [OF h1 h2, of 0 "''src/App.tsx''"]
  from t have a: "jsLine 0 (sideEffectImport CHR 0x27 ''./App.css'') = Return []"
    by (rule conjunct1)
  from h3 h4 have "CHR 0x0A \<notin> set ''./App.css'' \<and>
      extensionOf ''src/App.tsx'' \<in> {Some ''js'', Some ''jsx'', Some ''ts'', Some ''tsx''}"
    by (rule conjI)
  with t [THEN conjunct2]
  have b: "extractLocalImportPaths (Some (sideEffectImport CHR 0x27 ''./App.css'')) ''src/App.tsx'' =
      Return []"
    by (rule mp)
  have h6: "filter isQuote ''./App.css'' = []" by (simp add: isQuote_def)
  show ?thesis
    by (intro conjI) (fact h1, fact h6, fact h5, fact a, fact h3, fact h4, fact b)
qed

text \<open>
  A path may contain the other quote character. The scanner does not know where a string
  literal begins, and closes a path at either quote: in the side-effect import
  \<^verbatim>\<open>import 'import a from "./x';\<close> it finds an import of \<^verbatim>\<open>./x\<close>.
\<close>

theorem side_effect_import_quoted_text_counterexample:
  "jsLine 0 (''import '' @ [CHR 0x27] @ ''import a from '' @ [CHR 0x22] @ ''./x'' @ [CHR 0x27] @ '';'')
     \<noteq> Return []"
  by code_simp

end
